theory Spec2Isabelle
  imports Main "HOL-Library.AList"
begin

section \<open>Data model of the property expression engine\<close>

text \<open>
  The engine (\<^verbatim>\<open>App::PropertyExpressionEngine\<close>) lives inside a property container and
  talks to collaborators whose code is outside the engine's source file: object
  identifiers, expressions, properties, document objects and the boost graph library.
  Pointers are modelled by the identity of what they point to; a null pointer is
  \<open>None\<close>.
\<close>

type_synonym DocumentObject = nat

datatype PropertyContainer = DocumentObjectContainer DocumentObject | OtherContainer nat

text \<open>\<^verbatim>\<open>freecad_dynamic_cast<DocumentObject>(c)\<close>: null unless \<open>c\<close> is a document object.\<close>

fun freecad_dynamic_cast :: "PropertyContainer option \<Rightarrow> DocumentObject option" where
  "freecad_dynamic_cast None = None"
| "freecad_dynamic_cast (Some (DocumentObjectContainer d)) = Some d"
| "freecad_dynamic_cast (Some (OtherContainer c)) = None"

type_synonym ObjectIdentifier = string

type_synonym any = int

text \<open>
  What the engine reads from a \<^verbatim>\<open>Property*\<close>: its container, whether it is itself an
  expression engine, and the two places that can flag it as an output property.
\<close>

record Property =
  propContainer :: "PropertyContainer option"
  isExpressionEngine :: bool
  statusOutput :: bool
  typeOutput :: bool

text \<open>
  What the engine reads from an \<^verbatim>\<open>Expression\<close>: the identity of the object (the target of
  the \<^verbatim>\<open>shared_ptr\<close>), the grouping object \<open>\<rightarrow>\<close> property name \<open>\<rightarrow>\<close> identifiers returned by
  \<^verbatim>\<open>getDeps()\<close>, and the objects returned by \<^verbatim>\<open>getDepObjects()\<close> (entries may be null).
\<close>

record Expression =
  ident :: nat
  getDeps :: "(DocumentObject \<times> (string \<times> ObjectIdentifier list) list) list"
  getDepObjects :: "DocumentObject option list"

record ExpressionInfo =
  expression :: Expression
  comment :: string

text \<open>\<^verbatim>\<open>ExpressionInfo(expression, comment)\<close>: a null comment leaves the comment empty.\<close>

definition mkExpressionInfo :: "Expression \<Rightarrow> string option \<Rightarrow> ExpressionInfo" where
  "mkExpressionInfo e c =
     \<lparr>expression = e, comment = (case c of None \<Rightarrow> [] | Some s \<Rightarrow> s)\<rparr>"

text \<open>
  \<^verbatim>\<open>ExpressionMap\<close> is an unordered map: an association list with distinct keys, whose
  order stands for the iteration order of the container.
\<close>

type_synonym ExpressionMap = "(ObjectIdentifier \<times> ExpressionInfo) list"

datatype signal = AboutToSetValue | HasSetValue | ExpressionChanged ObjectIdentifier

datatype error = RuntimeError string | HostException string | NullDereference

datatype DocumentObjectExecReturn = StdReturn

text \<open>
  Everything a call can change: the members of the engine (\<open>expressions\<close>,
  \<open>restoredExpressions\<close>, \<open>running\<close>, \<open>validator\<close>, \<open>signalCounter\<close>), the signals it has
  emitted, the back-links registered on other objects (pairs of the object and the parent
  added to its in-list), and the values of the host's properties.
\<close>

record world =
  expressions :: ExpressionMap
  restoredExpressions :: ExpressionMap
  running :: bool
  validator :: "(ObjectIdentifier \<Rightarrow> Expression \<Rightarrow> string) option"
  signalCounter :: nat
  signals :: "signal list"
  backLinks :: "(DocumentObject \<times> DocumentObject) list"
  propertyValues :: "ObjectIdentifier \<Rightarrow> any option"

text \<open>
  The collaborators, as parameters. The callbacks that may run arbitrary host code
  (\<open>eval\<close>, \<open>propSetPathValue\<close>) transform the whole world, so they may call back into
  the engine.
\<close>

record host =
  getContainer :: "PropertyContainer option"
  getProperty :: "ObjectIdentifier \<Rightarrow> (Property \<times> int) option"
  oidCanonicalPath :: "ObjectIdentifier \<Rightarrow> ObjectIdentifier"
  resolveErrorString :: "ObjectIdentifier \<Rightarrow> string"
  getDocumentObject :: "ObjectIdentifier \<Rightarrow> DocumentObject option"
  toString :: "ObjectIdentifier \<Rightarrow> string"
  getInListEx :: "DocumentObject \<Rightarrow> world \<Rightarrow> DocumentObject set"
  getNameInDocument :: "DocumentObject \<Rightarrow> string option"
  getDocumentName :: "DocumentObject \<Rightarrow> string"
  propGetPathValue :: "Property \<Rightarrow> ObjectIdentifier \<Rightarrow> world \<Rightarrow> error + any"
  propSetPathValue :: "Property \<Rightarrow> ObjectIdentifier \<Rightarrow> any \<Rightarrow> world \<Rightarrow> (error + unit) \<times> world"
  eval :: "Expression \<Rightarrow> world \<Rightarrow> (error + any) \<times> world"
  copy :: "Expression \<Rightarrow> Expression"
  parseObjectIdentifier :: "DocumentObject option \<Rightarrow> string \<Rightarrow> error + ObjectIdentifier"
  parseExpression :: "DocumentObject option \<Rightarrow> string \<Rightarrow> error + Expression"

section \<open>Canonical paths and lookup\<close>

definition canonicalPath :: "host \<Rightarrow> ObjectIdentifier \<Rightarrow> error + ObjectIdentifier" where
  "canonicalPath h p =
     (case freecad_dynamic_cast (getContainer h) of
        None \<Rightarrow> Inl (RuntimeError ''PropertyExpressionEngine must be owned by a DocumentObject.'')
      | Some docObj \<Rightarrow>
          (case getProperty h p of
             None \<Rightarrow> Inl (RuntimeError (resolveErrorString h p))
           | Some (prop, ptype) \<Rightarrow>
               if ptype \<noteq> 0 \<or> propContainer prop \<noteq> getContainer h then Inr p
               else if isExpressionEngine prop then Inr p
               else Inr (oidCanonicalPath h p)))"

text \<open>\<^verbatim>\<open>getPathValue\<close>: the binding found, or an empty \<^verbatim>\<open>boost::any\<close> (\<open>None\<close>).\<close>

definition getPathValue :: "host \<Rightarrow> world \<Rightarrow> ObjectIdentifier \<Rightarrow> error + ExpressionInfo option" where
  "getPathValue h w path =
     (case canonicalPath h path of
        Inl e \<Rightarrow> Inl e
      | Inr usePath \<Rightarrow> Inr (map_of (expressions w) usePath))"

section \<open>Signals and back-links\<close>

text \<open>
  Modelled from the spec: \<^verbatim>\<open>AtomicPropertyChange\<close>, \<^verbatim>\<open>expressionChanged\<close>,
  \<^verbatim>\<open>_addBackLink\<close> and \<^verbatim>\<open>_removeBackLink\<close> are declared outside the engine's source
  file. A change scope is a nesting counter whose outermost entry and exit emit the
  bracket signals; \<open>changed(path)\<close> is recorded when it is emitted; a back-link is an
  entry of the in-list of the referenced object, added at the end and withdrawn one
  occurrence at a time.
\<close>

definition signallerEnter :: "world \<Rightarrow> world" where
  "signallerEnter w =
     (if signalCounter w = 0
      then w\<lparr>signalCounter := 1, signals := signals w @ [AboutToSetValue]\<rparr>
      else w\<lparr>signalCounter := Suc (signalCounter w)\<rparr>)"

definition signallerLeave :: "world \<Rightarrow> world" where
  "signallerLeave w =
     (if signalCounter w = 1
      then w\<lparr>signalCounter := 0, signals := signals w @ [HasSetValue]\<rparr>
      else w\<lparr>signalCounter := signalCounter w - 1\<rparr>)"

definition expressionChanged :: "ObjectIdentifier \<Rightarrow> world \<Rightarrow> world" where
  "expressionChanged p w = w\<lparr>signals := signals w @ [ExpressionChanged p]\<rparr>"

definition removeBackLink :: "DocumentObject \<Rightarrow> DocumentObject \<Rightarrow> world \<Rightarrow> world" where
  "removeBackLink docObj parent w = w\<lparr>backLinks := remove1 (docObj, parent) (backLinks w)\<rparr>"

definition addBackLink :: "DocumentObject \<Rightarrow> DocumentObject \<Rightarrow> world \<Rightarrow> world" where
  "addBackLink docObj parent w = w\<lparr>backLinks := backLinks w @ [(docObj, parent)]\<rparr>"

text \<open>
  The loop \<^verbatim>\<open>for(auto docObj : e->getDepObjects()) if (docObj && (docObj != parent)) ...\<close>
  in its two forms.
\<close>

definition removeBackLinks :: "DocumentObject \<Rightarrow> Expression \<Rightarrow> world \<Rightarrow> world" where
  "removeBackLinks parent e w =
     fold (\<lambda>docObj w'. case docObj of
                          None \<Rightarrow> w'
                        | Some d \<Rightarrow> if d \<noteq> parent then removeBackLink d parent w' else w')
          (getDepObjects e) w"

definition addBackLinks :: "DocumentObject \<Rightarrow> Expression \<Rightarrow> world \<Rightarrow> world" where
  "addBackLinks parent e w =
     fold (\<lambda>docObj w'. case docObj of
                          None \<Rightarrow> w'
                        | Some d \<Rightarrow> if d \<noteq> parent then addBackLink d parent w' else w')
          (getDepObjects e) w"

section \<open>The graph builder\<close>

type_synonym Edge = "nat \<times> nat"

type_synonym NodeMap = "(ObjectIdentifier \<times> nat) list"

type_synonym RevNodeMap = "(nat \<times> ObjectIdentifier) list"

text \<open>
  \<^verbatim>\<open>nodes[p]\<close>: the index stored for \<open>p\<close>. Every use below follows an insertion of \<open>p\<close>;
  for a missing key the operator would store and return 0.
\<close>

definition nodeIndex :: "NodeMap \<Rightarrow> ObjectIdentifier \<Rightarrow> nat" where
  "nodeIndex nodes p = (case map_of nodes p of None \<Rightarrow> 0 | Some i \<Rightarrow> i)"

text \<open>
  The body of the innermost loop of \<^verbatim>\<open>buildGraphStructures\<close>: canonicalize the
  dependency, give it the next index if it is new, and add the edge.
\<close>

definition addDependency ::
  "host \<Rightarrow> ObjectIdentifier \<Rightarrow> ObjectIdentifier \<Rightarrow> NodeMap \<times> Edge list \<Rightarrow> NodeMap \<times> Edge list" where
  "addDependency h path oid acc =
     (let nodes = fst acc; edges = snd acc;
          cPath = oidCanonicalPath h oid;
          nodes' = (if map_of nodes cPath = None then nodes @ [(cPath, length nodes)] else nodes)
      in (nodes', edges @ [(nodeIndex nodes' path, nodeIndex nodes' cPath)]))"

definition addDependencies ::
  "host \<Rightarrow> ObjectIdentifier \<Rightarrow> Expression \<Rightarrow> NodeMap \<times> Edge list \<Rightarrow> NodeMap \<times> Edge list" where
  "addDependencies h path e acc =
     fold (\<lambda>dep. fold (\<lambda>info. if fst info = [] then id
                                else fold (addDependency h path) (snd info)) (snd dep))
          (getDeps e) acc"

definition buildGraphStructures ::
  "host \<Rightarrow> ObjectIdentifier \<Rightarrow> Expression \<Rightarrow> NodeMap \<times> RevNodeMap \<times> Edge list
     \<Rightarrow> NodeMap \<times> RevNodeMap \<times> Edge list" where
  "buildGraphStructures h path e acc =
     (let nodes = fst acc; revNodes = fst (snd acc); edges = snd (snd acc);
          nodes1 = (if map_of nodes path = None then nodes @ [(path, length nodes)] else nodes);
          revNodes1 = (if map_of nodes path = None then AList.update (length nodes) path revNodes
                       else AList.update (nodeIndex nodes path) path revNodes);
          r = addDependencies h path e (nodes1, edges)
      in (fst r, revNodes1, snd r))"

subsection \<open>The boost graph and its depth-first search\<close>

text \<open>
  Modelled from the spec: \<^verbatim>\<open>DiGraph\<close> is a boost \<^verbatim>\<open>adjacency_list\<close> with vertices
  \<open>0 ..< num_vertices\<close>; \<^verbatim>\<open>add_edge\<close> enlarges the vertex set to hold both ends.
  \<^verbatim>\<open>depth_first_search\<close> is boost's three-colour search from every white vertex in
  index order, run on an explicit stack of a vertex and its out-edges still to examine;
  it reports a back edge when the target of an examined edge is gray and finishes a
  vertex when its out-edges are exhausted. The two visitors of the engine read these
  events: \<^verbatim>\<open>cycle_detector\<close> keeps the source of the last back edge, and
  \<^verbatim>\<open>topological_sort\<close> emits the vertices in finishing order and rejects a back edge.
\<close>

record DiGraph =
  num_vertices :: nat
  edge_list :: "Edge list"

definition add_edge :: "nat \<Rightarrow> nat \<Rightarrow> DiGraph \<Rightarrow> DiGraph" where
  "add_edge u v g =
     \<lparr>num_vertices = max (num_vertices g) (Suc (max u v)), edge_list = edge_list g @ [(u, v)]\<rparr>"

definition out_edges :: "DiGraph \<Rightarrow> nat \<Rightarrow> nat list" where
  "out_edges g u = map snd (filter (\<lambda>e. fst e = u) (edge_list g))"

datatype color = White | Gray | Black

record dfs_state =
  colour :: "nat \<Rightarrow> color"
  stack :: "(nat \<times> nat list) list"
  back_edges :: "Edge list"
  finish_order :: "nat list"

definition dfs_step :: "DiGraph \<Rightarrow> dfs_state \<Rightarrow> dfs_state" where
  "dfs_step g s =
     (case stack s of
        [] \<Rightarrow> s
      | (u, []) # st \<Rightarrow>
          s\<lparr>colour := (colour s)(u := Black), stack := st, finish_order := finish_order s @ [u]\<rparr>
      | (u, v # vs) # st \<Rightarrow>
          (case colour s v of
             White \<Rightarrow> s\<lparr>colour := (colour s)(v := Gray), stack := (v, out_edges g v) # (u, vs) # st\<rparr>
           | Gray \<Rightarrow> s\<lparr>stack := (u, vs) # st, back_edges := back_edges s @ [(u, v)]\<rparr>
           | Black \<Rightarrow> s\<lparr>stack := (u, vs) # st\<rparr>))"

text \<open>The white vertices that the search can still reach: what makes the loop end.\<close>

definition whiteTargets :: "DiGraph \<Rightarrow> dfs_state \<Rightarrow> nat set" where
  "whiteTargets g s =
     {v \<in> snd ` set (edge_list g) \<union> (\<Union>f \<in> set (stack s). set (snd f)). colour s v = White}"

definition pendingWork :: "dfs_state \<Rightarrow> nat" where
  "pendingWork s = sum_list (map (\<lambda>f. Suc (length (snd f))) (stack s))"

function dfs_loop :: "DiGraph \<Rightarrow> dfs_state \<Rightarrow> dfs_state" where
  "dfs_loop g s = (if stack s = [] then s else dfs_loop g (dfs_step g s))"
  by pat_completeness auto

termination dfs_loop
proof (relation "measures [\<lambda>(g, s). card (whiteTargets g s), \<lambda>(g, s). pendingWork s]")
  show "wf (measures [\<lambda>(g, s). card (whiteTargets g s), \<lambda>(g, s). pendingWork s])"
    by simp
next
  fix g :: DiGraph and s :: dfs_state
  assume "stack s \<noteq> []"
  then obtain u r st where st: "stack s = (u, r) # st"
    by (cases "stack s") auto
  have fin: "finite (whiteTargets g s)"
    by (simp add: whiteTargets_def)
  show "((g, dfs_step g s), (g, s))
          \<in> measures [\<lambda>(g, s). card (whiteTargets g s), \<lambda>(g, s). pendingWork s]"
  proof (cases r)
    case Nil
    have "whiteTargets g (dfs_step g s) \<subseteq> whiteTargets g s"
      using st Nil by (auto simp: whiteTargets_def dfs_step_def split: if_splits)
    then have "card (whiteTargets g (dfs_step g s)) \<le> card (whiteTargets g s)"
      by (simp add: card_mono fin)
    moreover have "pendingWork (dfs_step g s) < pendingWork s"
      using st Nil by (simp add: pendingWork_def dfs_step_def)
    ultimately show ?thesis by auto
  next
    case (Cons v vs)
    show ?thesis
    proof (cases "colour s v")
      case White
      have "whiteTargets g (dfs_step g s) \<subseteq> whiteTargets g s - {v}"
        using st Cons White
        by (auto simp: whiteTargets_def dfs_step_def out_edges_def split: if_splits)
      moreover have "v \<in> whiteTargets g s"
        using st Cons White by (auto simp: whiteTargets_def)
      ultimately have "whiteTargets g (dfs_step g s) \<subset> whiteTargets g s"
        by auto
      then have "card (whiteTargets g (dfs_step g s)) < card (whiteTargets g s)"
        by (simp add: psubset_card_mono fin)
      then show ?thesis by auto
    next
      case Gray
      have "whiteTargets g (dfs_step g s) \<subseteq> whiteTargets g s"
        using st Cons Gray by (auto simp: whiteTargets_def dfs_step_def split: if_splits)
      then have "card (whiteTargets g (dfs_step g s)) \<le> card (whiteTargets g s)"
        by (simp add: card_mono fin)
      moreover have "pendingWork (dfs_step g s) < pendingWork s"
        using st Cons Gray by (simp add: pendingWork_def dfs_step_def)
      ultimately show ?thesis by auto
    next
      case Black
      have "whiteTargets g (dfs_step g s) \<subseteq> whiteTargets g s"
        using st Cons Black by (auto simp: whiteTargets_def dfs_step_def split: if_splits)
      then have "card (whiteTargets g (dfs_step g s)) \<le> card (whiteTargets g s)"
        by (simp add: card_mono fin)
      moreover have "pendingWork (dfs_step g s) < pendingWork s"
        using st Cons Black by (simp add: pendingWork_def dfs_step_def)
      ultimately show ?thesis by auto
    qed
  qed
qed

definition depth_first_visit :: "DiGraph \<Rightarrow> nat \<Rightarrow> dfs_state \<Rightarrow> dfs_state" where
  "depth_first_visit g u s =
     dfs_loop g (s\<lparr>colour := (colour s)(u := Gray), stack := [(u, out_edges g u)]\<rparr>)"

definition dfs_init :: dfs_state where
  "dfs_init = \<lparr>colour = (\<lambda>v. White), stack = [], back_edges = [], finish_order = []\<rparr>"

definition depth_first_search :: "DiGraph \<Rightarrow> dfs_state" where
  "depth_first_search g =
     fold (\<lambda>u s. if colour s u = White then depth_first_visit g u s else s)
          [0 ..< num_vertices g] dfs_init"

text \<open>\<^verbatim>\<open>cycle_detector\<close>: each back edge sets the flag and overwrites the source.\<close>

definition cycle_detector :: "dfs_state \<Rightarrow> bool \<times> int" where
  "cycle_detector s = fold (\<lambda>e r. (True, int (fst e))) (back_edges s) (False, - 1)"

definition topological_sort :: "DiGraph \<Rightarrow> error + nat list" where
  "topological_sort g =
     (let s = depth_first_search g
      in if back_edges s = [] then Inr (finish_order s)
         else Inl (HostException ''The graph must be a DAG.''))"

subsection \<open>Building and checking the graph\<close>

definition is_output :: "Property \<Rightarrow> bool" where
  "is_output prop = (statusOutput prop \<or> typeOutput prop)"

fun buildGraphLoop ::
  "host \<Rightarrow> int \<Rightarrow> ExpressionMap \<Rightarrow> NodeMap \<times> RevNodeMap \<times> Edge list
     \<Rightarrow> error + NodeMap \<times> RevNodeMap \<times> Edge list" where
  "buildGraphLoop h output [] acc = Inr acc"
| "buildGraphLoop h output (it # exprs) acc =
     (if output \<ge> 0 then
        (case getProperty h (fst it) of
           None \<Rightarrow> Inl (RuntimeError ''Path does not resolve to a property.'')
         | Some (prop, ptype) \<Rightarrow>
             if is_output prop \<noteq> (output > 0) then buildGraphLoop h output exprs acc
             else buildGraphLoop h output exprs
                    (buildGraphStructures h (fst it) (expression (snd it)) acc))
      else buildGraphLoop h output exprs
             (buildGraphStructures h (fst it) (expression (snd it)) acc))"

text \<open>
  \<^verbatim>\<open>revNodes[src]\<close> in the message: the source of a back edge is a bound path; for a
  missing key the operator would give a default-constructed identifier.
\<close>

definition revNodeAt :: "RevNodeMap \<Rightarrow> int \<Rightarrow> ObjectIdentifier" where
  "revNodeAt revNodes i =
     (if i < 0 then [] else case map_of revNodes (nat i) of None \<Rightarrow> [] | Some p \<Rightarrow> p)"

definition buildGraph ::
  "host \<Rightarrow> ExpressionMap \<Rightarrow> RevNodeMap \<Rightarrow> int \<Rightarrow> error + RevNodeMap \<times> DiGraph" where
  "buildGraph h exprs revNodes output =
     (case buildGraphLoop h output exprs ([], revNodes, []) of
        Inl e \<Rightarrow> Inl e
      | Inr (nodes, revNodes', edges) \<Rightarrow>
          (let g = fold (\<lambda>e. add_edge (fst e) (snd e)) edges
                     \<lparr>num_vertices = length revNodes', edge_list = []\<rparr>;
               vis = cycle_detector (depth_first_search g)
           in if fst vis
              then Inl (RuntimeError (toString h (revNodeAt revNodes' (snd vis))
                                       @ '' reference creates a cyclic dependency.''))
              else Inr (revNodes', g)))"

definition computeEvaluationOrder :: "host \<Rightarrow> world \<Rightarrow> int \<Rightarrow> error + ObjectIdentifier list" where
  "computeEvaluationOrder h w output =
     (case buildGraph h (expressions w) [] output of
        Inl e \<Rightarrow> Inl e
      | Inr (revNodes, g) \<Rightarrow>
          (case topological_sort g of
             Inl e \<Rightarrow> Inl e
           | Inr c \<Rightarrow> Inr (List.map_filter (map_of revNodes) c)))"

section \<open>Validation and \<^verbatim>\<open>setValue\<close>\<close>

definition objName :: "host \<Rightarrow> DocumentObject option \<Rightarrow> string" where
  "objName h obj =
     (case obj of
        None \<Rightarrow> ''?''
      | Some d \<Rightarrow> (case getNameInDocument h d of
                     None \<Rightarrow> ''?''
                   | Some n \<Rightarrow> getDocumentName h d @ ''#'' @ n))"

text \<open>
  \<^verbatim>\<open>newExpressions[usePath].expression = exprClone\<close>: an existing entry keeps its
  comment, a new one has the empty comment.
\<close>

definition withClone :: "ExpressionMap \<Rightarrow> ObjectIdentifier \<Rightarrow> Expression \<Rightarrow> ExpressionMap" where
  "withClone exprs usePath exprClone =
     AList.update usePath
       (case map_of exprs usePath of
          None \<Rightarrow> \<lparr>expression = exprClone, comment = []\<rparr>
        | Some info \<Rightarrow> info\<lparr>expression := exprClone\<rparr>) exprs"

definition validateExpression ::
  "host \<Rightarrow> world \<Rightarrow> ObjectIdentifier \<Rightarrow> Expression \<Rightarrow> error + string" where
  "validateExpression h w path expr =
     (case canonicalPath h path of
        Inl e \<Rightarrow> Inl e
      | Inr usePath \<Rightarrow>
          (let error = (case validator w of None \<Rightarrow> [] | Some v \<Rightarrow> v usePath expr)
           in if error \<noteq> [] then Inr error
              else
                (case getDocumentObject h usePath of
                   None \<Rightarrow> Inl NullDereference
                 | Some pathDocObj \<Rightarrow>
                     (case find (\<lambda>docObj. case docObj of
                                             None \<Rightarrow> False
                                           | Some d \<Rightarrow> d \<in> getInListEx h pathDocObj w)
                                (getDepObjects expr) of
                        Some docObj \<Rightarrow> Inr (''cyclic reference to '' @ objName h docObj)
                      | None \<Rightarrow>
                          (case buildGraph h (withClone (expressions w) usePath (copy h expr))
                                  [] (- 1) of
                             Inl (RuntimeError s) \<Rightarrow> Inr s
                           | Inl e \<Rightarrow> Inl e
                           | Inr r \<Rightarrow> Inr [])))))"

definition setValue ::
  "host \<Rightarrow> world \<Rightarrow> ObjectIdentifier \<Rightarrow> Expression option \<Rightarrow> string option
     \<Rightarrow> (error + unit) \<times> world" where
  "setValue h w path expr cmt =
     (case canonicalPath h path of
        Inl e \<Rightarrow> (Inl e, w)
      | Inr usePath \<Rightarrow>
          (case getProperty h usePath of
             None \<Rightarrow> (Inl NullDereference, w)
           | Some (prop, ptype) \<Rightarrow>
               (case propGetPathValue h prop usePath w of
                  Inl e \<Rightarrow> (Inl e, w)
                | Inr v \<Rightarrow>
                    (let it = map_of (expressions w) usePath;
                         parent = freecad_dynamic_cast (getContainer h)
                     in if (case (it, expr) of
                              (Some info, Some e) \<Rightarrow> ident e = ident (expression info)
                            | _ \<Rightarrow> False)
                        then (Inr (), w)
                        else
                          (case expr of
                             Some e \<Rightarrow>
                               (case validateExpression h w usePath e of
                                  Inl err \<Rightarrow> (Inl err, w)
                                | Inr error \<Rightarrow>
                                    if error \<noteq> [] then (Inl (RuntimeError error), w)
                                    else
                                      (let w1 = signallerEnter w;
                                           w2 = (case (parent, it) of
                                                   (Some par, Some info) \<Rightarrow>
                                                     removeBackLinks par (expression info) w1
                                                 | _ \<Rightarrow> w1);
                                           w3 = w2\<lparr>expressions :=
                                                  AList.update usePath (mkExpressionInfo e cmt)
                                                    (expressions w2)\<rparr>;
                                           w4 = (case parent of
                                                   Some par \<Rightarrow> addBackLinks par e w3
                                                 | None \<Rightarrow> w3);
                                           w5 = expressionChanged usePath w4
                                       in (Inr (), signallerLeave w5)))
                           | None \<Rightarrow>
                               (let w1 = signallerEnter w;
                                    w2 = (case (parent, it) of
                                            (Some par, Some info) \<Rightarrow>
                                              removeBackLinks par (expression info) w1
                                          | _ \<Rightarrow> w1);
                                    w3 = w2\<lparr>expressions := AList.delete usePath (expressions w2)\<rparr>;
                                    w4 = expressionChanged usePath w3
                                in (Inr (), signallerLeave w4)))))))"

section \<open>\<^verbatim>\<open>execute\<close>\<close>

text \<open>
  The loop over the evaluation order. Beside the result and the world, the model returns
  the calls \<^verbatim>\<open>prop->setPathValue(*it, value)\<close> that returned, in the order they were
  made. \<open>eval\<close> stands for \<^verbatim>\<open>expression->eval()\<close> followed by \<^verbatim>\<open>getValueAsAny()\<close>.
  \<^verbatim>\<open>expressions[*it]\<close> on a path that a callback has unbound meanwhile would create an
  entry with a null expression and dereference it.
\<close>

fun executeLoop ::
  "host \<Rightarrow> DocumentObject \<Rightarrow> ObjectIdentifier list \<Rightarrow> world \<Rightarrow> (ObjectIdentifier \<times> any) list
     \<Rightarrow> (error + DocumentObjectExecReturn) \<times> world \<times> (ObjectIdentifier \<times> any) list" where
  "executeLoop h docObj [] w written = (Inr StdReturn, w, written)"
| "executeLoop h docObj (p # rest) w written =
     (case getProperty h p of
        None \<Rightarrow> (Inl (RuntimeError ''Path does not resolve to a property.''), w, written)
      | Some (prop, ptype) \<Rightarrow>
          if freecad_dynamic_cast (propContainer prop) \<noteq> Some docObj
          then (Inl (RuntimeError ''Invalid property owner.''), w, written)
          else
            (case map_of (expressions w) p of
               None \<Rightarrow> (Inl NullDereference, w, written)
             | Some info \<Rightarrow>
                 (case eval h (expression info) w of
                    (Inl e, w1) \<Rightarrow> (Inl e, w1, written)
                  | (Inr v, w1) \<Rightarrow>
                      (case propSetPathValue h prop p v w1 of
                         (Inl e, w2) \<Rightarrow> (Inl e, w2, written)
                       | (Inr u, w2) \<Rightarrow> executeLoop h docObj rest w2 (written @ [(p, v)])))))"

text \<open>
  The \<^verbatim>\<open>resetter\<close> object sets \<open>running\<close> when it is constructed and clears it when the
  scope is left, by a return or by an exception.
\<close>

definition execute ::
  "host \<Rightarrow> world \<Rightarrow> int
     \<Rightarrow> (error + DocumentObjectExecReturn) \<times> world \<times> (ObjectIdentifier \<times> any) list" where
  "execute h w output =
     (case freecad_dynamic_cast (getContainer h) of
        None \<Rightarrow>
          (Inl (RuntimeError ''PropertyExpressionEngine must be owned by a DocumentObject.''), w, [])
      | Some docObj \<Rightarrow>
          if running w then (Inr StdReturn, w, [])
          else
            (let w1 = w\<lparr>running := True\<rparr>;
                 r = (case computeEvaluationOrder h w1 output of
                        Inl e \<Rightarrow> (Inl e, w1, [])
                      | Inr evaluationOrder \<Rightarrow> executeLoop h docObj evaluationOrder w1 [])
             in (fst r, (fst (snd r))\<lparr>running := False\<rparr>, snd (snd r))))"

section \<open>Maintenance handlers\<close>

definition getDocumentObjectDeps ::
  "host \<Rightarrow> world \<Rightarrow> DocumentObject list \<Rightarrow> DocumentObject list" where
  "getDocumentObjectDeps h w docObjs =
     (case freecad_dynamic_cast (getContainer h) of
        None \<Rightarrow> docObjs
      | Some owner \<Rightarrow>
          docObjs @
          concat (map (\<lambda>v. concat (map (\<lambda>docObj. case docObj of
                                                    None \<Rightarrow> []
                                                  | Some d \<Rightarrow> if d \<noteq> owner then [d] else [])
                                        (getDepObjects (expression (snd v)))))
                      (expressions w)))"

definition getPathsToDocumentObject ::
  "host \<Rightarrow> world \<Rightarrow> DocumentObject \<Rightarrow> ObjectIdentifier list \<Rightarrow> ObjectIdentifier list" where
  "getPathsToDocumentObject h w obj paths =
     (case freecad_dynamic_cast (getContainer h) of
        None \<Rightarrow> paths
      | Some owner \<Rightarrow>
          if owner = obj then paths
          else paths @
               concat (map (\<lambda>v. case map_of (getDeps (expression (snd v))) obj of
                                   None \<Rightarrow> []
                                 | Some props \<Rightarrow> concat (map snd props))
                           (expressions w)))"

text \<open>The loop \<^verbatim>\<open>for(auto &id : paths) setValue(id,nullptr)\<close>; an exception ends it.\<close>

fun setValueNull :: "host \<Rightarrow> ObjectIdentifier list \<Rightarrow> world \<Rightarrow> (error + unit) \<times> world" where
  "setValueNull h [] w = (Inr (), w)"
| "setValueNull h (p # ps) w =
     (case setValue h w p None None of
        (Inl e, w') \<Rightarrow> (Inl e, w')
      | (Inr u, w') \<Rightarrow> setValueNull h ps w')"

fun breakDependencyLoop ::
  "host \<Rightarrow> DocumentObject set \<Rightarrow> DocumentObject list \<Rightarrow> world \<Rightarrow> (error + unit) \<times> world" where
  "breakDependencyLoop h depSet [] w = (Inr (), w)"
| "breakDependencyLoop h depSet (obj # objs) w =
     (if obj \<in> depSet then
        (case setValueNull h (getPathsToDocumentObject h w obj []) w of
           (Inl e, w') \<Rightarrow> (Inl e, w')
         | (Inr u, w') \<Rightarrow> breakDependencyLoop h depSet objs w')
      else breakDependencyLoop h depSet objs w)"

definition breakDependency :: "host \<Rightarrow> world \<Rightarrow> DocumentObject list \<Rightarrow> (error + unit) \<times> world" where
  "breakDependency h w objs =
     breakDependencyLoop h (set (getDocumentObjectDeps h w [])) objs w"

text \<open>
  \<^verbatim>\<open>renameExpressions\<close>. The argument is a \<^verbatim>\<open>std::map\<close>, given as the list of its
  entries; the first loop canonicalizes its keys.
\<close>

fun canonicalizeKeys ::
  "host \<Rightarrow> (ObjectIdentifier \<times> ObjectIdentifier) list \<Rightarrow> (ObjectIdentifier \<times> ObjectIdentifier) list
     \<Rightarrow> error + (ObjectIdentifier \<times> ObjectIdentifier) list" where
  "canonicalizeKeys h [] canonicalPaths = Inr canonicalPaths"
| "canonicalizeKeys h (i # paths) canonicalPaths =
     (case canonicalPath h (fst i) of
        Inl e \<Rightarrow> Inl e
      | Inr k \<Rightarrow> canonicalizeKeys h paths (AList.update k (snd i) canonicalPaths))"

definition rehouse ::
  "(ObjectIdentifier \<times> ObjectIdentifier) list \<Rightarrow> ExpressionMap \<Rightarrow> ExpressionMap" where
  "rehouse canonicalPaths exprs =
     fold (\<lambda>i newExpressions.
             case map_of canonicalPaths (fst i) of
               Some j \<Rightarrow> AList.update j (snd i) newExpressions
             | None \<Rightarrow> AList.update (fst i) (snd i) newExpressions)
          exprs []"

definition renameExpressions ::
  "host \<Rightarrow> world \<Rightarrow> (ObjectIdentifier \<times> ObjectIdentifier) list \<Rightarrow> (error + unit) \<times> world" where
  "renameExpressions h w paths =
     (case canonicalizeKeys h paths [] of
        Inl e \<Rightarrow> (Inl e, w)
      | Inr canonicalPaths \<Rightarrow>
          (let newExpressions = rehouse canonicalPaths (expressions w);
               w1 = w\<lparr>signals := signals w @ [AboutToSetValue]\<rparr>;
               w2 = w1\<lparr>expressions := newExpressions\<rparr>;
               w3 = fold expressionChanged (map fst newExpressions) w2
           in (Inr (), w3\<lparr>signals := signals w3 @ [HasSetValue]\<rparr>)))"

section \<open>Restore\<close>

text \<open>
  The reader positioned at the \<^verbatim>\<open>ExpressionEngine\<close> element: its \<open>count\<close> attribute
  converted to \<^verbatim>\<open>int\<close>, and the \<^verbatim>\<open>Expression\<close> elements that follow. Reading an element
  that is not there raises the reader's exception.
\<close>

record ExpressionElement =
  pathAttr :: string
  expressionAttr :: string
  commentAttr :: "string option"

record XMLReader =
  countAttr :: int
  elements :: "ExpressionElement list"

fun restoreLoop ::
  "host \<Rightarrow> nat \<Rightarrow> ExpressionElement list \<Rightarrow> world \<Rightarrow> (error + unit) \<times> world" where
  "restoreLoop h 0 els w = (Inr (), w)"
| "restoreLoop h (Suc n) [] w = (Inl (HostException ''Expression element expected''), w)"
| "restoreLoop h (Suc n) (el # els) w =
     (let docObj = freecad_dynamic_cast (getContainer h)
      in case parseObjectIdentifier h docObj (pathAttr el) of
           Inl e \<Rightarrow> (Inl e, w)
         | Inr path \<Rightarrow>
             (case parseExpression h docObj (expressionAttr el) of
                Inl e \<Rightarrow> (Inl e, w)
              | Inr expr \<Rightarrow>
                  restoreLoop h n els
                    (w\<lparr>restoredExpressions :=
                          AList.update path (mkExpressionInfo expr (commentAttr el))
                            (restoredExpressions w)\<rparr>)))"

definition Restore :: "host \<Rightarrow> world \<Rightarrow> XMLReader \<Rightarrow> (error + unit) \<times> world" where
  "Restore h w reader =
     restoreLoop h (nat (countAttr reader)) (elements reader) (w\<lparr>restoredExpressions := []\<rparr>)"

fun setValueRestored :: "host \<Rightarrow> ExpressionMap \<Rightarrow> world \<Rightarrow> (error + unit) \<times> world" where
  "setValueRestored h [] w = (Inr (), w)"
| "setValueRestored h (it # rest) w =
     (case setValue h w (fst it) (Some (expression (snd it)))
             (if comment (snd it) \<noteq> [] then Some (comment (snd it)) else None) of
        (Inl e, w') \<Rightarrow> (Inl e, w')
      | (Inr u, w') \<Rightarrow> setValueRestored h rest w')"

definition onDocumentRestored :: "host \<Rightarrow> world \<Rightarrow> (error + unit) \<times> world" where
  "onDocumentRestored h w =
     (let w1 = signallerEnter w;
          r = setValueRestored h (restoredExpressions w1) w1
      in (fst r, signallerLeave (snd r)))"

section \<open>Notions used to state the properties\<close>

text \<open>
  The canonical dependency paths of an expression: the identifiers of its grouping object
  \<open>\<rightarrow>\<close> property name \<open>\<rightarrow>\<close> identifiers whose property name is not empty, each in
  canonical form.
\<close>

definition dependencyPaths :: "host \<Rightarrow> Expression \<Rightarrow> ObjectIdentifier list" where
  "dependencyPaths h e =
     concat (map (\<lambda>dep. concat (map (\<lambda>info. if fst info = [] then []
                                             else map (oidCanonicalPath h) (snd info)) (snd dep)))
                 (getDeps e))"

text \<open>
  The dependency graph over a set of bindings: an edge from each bound path to each
  canonical dependency path of its expression.
\<close>

definition dependencyGraph :: "host \<Rightarrow> ExpressionMap \<Rightarrow> (ObjectIdentifier \<times> ObjectIdentifier) set" where
  "dependencyGraph h exprs =
     {(p, q). \<exists>info. (p, info) \<in> set exprs \<and> q \<in> set (dependencyPaths h (expression info))}"

text \<open>
  The bindings that the output filter lets through: all of them for a negative filter,
  otherwise those whose property is flagged as output exactly when the filter is
  positive.
\<close>

definition admitted :: "host \<Rightarrow> int \<Rightarrow> ObjectIdentifier \<Rightarrow> bool" where
  "admitted h output p =
     (output < 0 \<or> (case getProperty h p of
                      None \<Rightarrow> False
                    | Some (prop, ptype) \<Rightarrow> is_output prop = (output > 0)))"

text \<open>
  The back-links that \<^verbatim>\<open>setValue\<close> registers for an expression: one on every referenced
  object that is not null and not the owner of the engine.
\<close>

definition backLinksOf :: "DocumentObject \<Rightarrow> Expression \<Rightarrow> (DocumentObject \<times> DocumentObject) list" where
  "backLinksOf parent e =
     concat (map (\<lambda>docObj. case docObj of
                              None \<Rightarrow> []
                            | Some d \<Rightarrow> if d \<noteq> parent then [(d, parent)] else [])
                 (getDepObjects e))"

text \<open>
  The world after bindings at paths that were not bound have been installed one after the
  other inside an open change scope: each is appended to the live store, its back-links
  are registered and its change is signalled.
\<close>

definition installed :: "DocumentObject \<Rightarrow> world \<Rightarrow> ExpressionMap \<Rightarrow> world" where
  "installed parent w bindings =
     w\<lparr>expressions := expressions w @ bindings,
       backLinks := backLinks w @ concat (map (\<lambda>b. backLinksOf parent (expression (snd b))) bindings),
       signals := signals w @ map (\<lambda>b. ExpressionChanged (fst b)) bindings\<rparr>"

text \<open>
  What \<^verbatim>\<open>setValue\<close> requires before it installs an expression at a canonical path that is
  not bound: the property of the path is found, its value can be read, and
  \<^verbatim>\<open>validateExpression\<close> returns the empty diagnostic.
\<close>

definition installable :: "host \<Rightarrow> world \<Rightarrow> ObjectIdentifier \<Rightarrow> Expression \<Rightarrow> bool" where
  "installable h w usePath e =
     (case getProperty h usePath of
        None \<Rightarrow> False
      | Some (prop, ptype) \<Rightarrow>
          (case propGetPathValue h prop usePath w of
             Inl err \<Rightarrow> False
           | Inr v \<Rightarrow> validateExpression h w usePath e = Inr []))"

section \<open>Invariants of the graph builder and of the search\<close>

text \<open>The step of \<open>addDependency\<close> on a path that is already canonical.\<close>

definition addCanonical :: "ObjectIdentifier \<Rightarrow> ObjectIdentifier \<Rightarrow> NodeMap \<times> Edge list \<Rightarrow> NodeMap \<times> Edge list" where
  "addCanonical path cPath acc =
     (let nodes = fst acc; edges = snd acc;
          nodes' = (if map_of nodes cPath = None then nodes @ [(cPath, length nodes)] else nodes)
      in (nodes', edges @ [(nodeIndex nodes' path, nodeIndex nodes' cPath)]))"

text \<open>Indices are given out densely: the \<open>i\<close>-th node inserted has index \<open>i\<close>.\<close>

definition dense :: "NodeMap \<Rightarrow> bool" where
  "dense nodes = (distinct (map fst nodes) \<and> map snd nodes = [0 ..< length nodes])"

text \<open>
  What holds of the three structures after the bindings \<open>ps\<close> have been processed: every
  bound path and dependency has a node, the reverse map holds exactly the bound paths
  under their indices, and the edges are those of the bindings.
\<close>

definition graphInv :: "host \<Rightarrow> ExpressionMap \<Rightarrow> NodeMap \<times> RevNodeMap \<times> Edge list \<Rightarrow> bool" where
  "graphInv h ps acc =
     (dense (fst acc) \<and>
      (\<forall>it \<in> set ps. map_of (fst acc) (fst it) \<noteq> None \<and>
                      set (dependencyPaths h (expression (snd it))) \<subseteq> fst ` set (fst acc)) \<and>
      (\<forall>i p. (map_of (fst (snd acc)) i = Some p)
               = (p \<in> fst ` set ps \<and> map_of (fst acc) p = Some i)) \<and>
      set (snd (snd acc))
        = {(nodeIndex (fst acc) (fst it), nodeIndex (fst acc) q) | it q.
             it \<in> set ps \<and> q \<in> set (dependencyPaths h (expression (snd it)))})"

text \<open>
  What holds of a stack frame during the search: every out-edge of its vertex is still
  to be examined, or leads to a finished vertex, or to the vertex of the frame above
  (the tree edge being explored), or a back edge has been reported.
\<close>

fun frames_ok :: "Edge set \<Rightarrow> (nat \<Rightarrow> color) \<Rightarrow> bool \<Rightarrow> nat option \<Rightarrow> (nat \<times> nat list) list \<Rightarrow> bool" where
  "frames_ok E col flagged child [] = True"
| "frames_ok E col flagged child (f # below) =
     ((\<forall>v. (fst f, v) \<in> E \<longrightarrow> v \<in> set (snd f) \<or> col v = Black \<or> flagged \<or> child = Some v) \<and>
      frames_ok E col flagged (Some (fst f)) below)"

text \<open>In a list of vertices, the targets of the out-edges of a vertex come before it.\<close>

definition deps_first :: "Edge set \<Rightarrow> nat list \<Rightarrow> bool" where
  "deps_first E l = (\<forall>i < length l. \<forall>v. (l ! i, v) \<in> E \<longrightarrow> v \<in> set (take i l))"

definition dfs_inv :: "DiGraph \<Rightarrow> dfs_state \<Rightarrow> bool" where
  "dfs_inv g s =
     ((\<forall>v. colour s v = Black \<longrightarrow> v \<in> set (finish_order s)) \<and>
      (\<forall>v. colour s v = Gray \<longrightarrow> v \<in> fst ` set (stack s)) \<and>
      frames_ok (set (edge_list g)) (colour s) (back_edges s \<noteq> []) None (stack s) \<and>
      (back_edges s = [] \<longrightarrow> deps_first (set (edge_list g)) (finish_order s)))"

text \<open>The key under which the renaming of \<open>a\<close> to \<open>b\<close> rehouses the binding of \<open>k\<close>.\<close>

definition renameKey :: "ObjectIdentifier \<Rightarrow> ObjectIdentifier \<Rightarrow> ObjectIdentifier \<Rightarrow> ObjectIdentifier" where
  "renameKey a b k = (if k = a then b else k)"

section \<open>Concrete hosts used to run the model\<close>

definition ownerProp :: Property where
  "ownerProp = \<lparr>propContainer = Some (DocumentObjectContainer 1), isExpressionEngine = False,
                statusOutput = False, typeOutput = False\<rparr>"

definition otherProp :: Property where
  "otherProp = \<lparr>propContainer = Some (DocumentObjectContainer 2), isExpressionEngine = False,
                statusOutput = False, typeOutput = False\<rparr>"

definition emptyWorld :: world where
  "emptyWorld = \<lparr>expressions = [], restoredExpressions = [], running = False, validator = None,
                 signalCounter = 0, signals = [], backLinks = [],
                 propertyValues = (\<lambda>p. None)\<rparr>"

text \<open>
  A document object 1 owning the engine and the properties \<open>A\<close>, \<open>B\<close>, \<open>C\<close>; a second
  object 2 with the property \<open>other.value\<close>. Values are integers kept in \<open>propertyValues\<close>.
\<close>

definition plainHost :: host where
  "plainHost =
     \<lparr>getContainer = Some (DocumentObjectContainer 1),
      getProperty = (\<lambda>p. if p \<in> {''A'', ''B'', ''C''} then Some (ownerProp, 0)
                          else if p = ''other.value'' then Some (otherProp, 0) else None),
      oidCanonicalPath = (\<lambda>p. p),
      resolveErrorString = (\<lambda>p. ''Property not found: '' @ p),
      getDocumentObject = (\<lambda>p. if p = ''other.value'' then Some 2 else Some 1),
      toString = (\<lambda>p. p),
      getInListEx = (\<lambda>d w. {}),
      getNameInDocument = (\<lambda>d. Some ''Obj''),
      getDocumentName = (\<lambda>d. ''Doc''),
      propGetPathValue = (\<lambda>prop p w. case propertyValues w p of None \<Rightarrow> Inr 0 | Some v \<Rightarrow> Inr v),
      propSetPathValue = (\<lambda>prop p v w. (Inr (), w\<lparr>propertyValues := (propertyValues w)(p \<mapsto> v)\<rparr>)),
      eval = (\<lambda>e w. (Inr 0, w)),
      copy = (\<lambda>e. e),
      parseObjectIdentifier = (\<lambda>d s. Inr s),
      parseExpression = (\<lambda>d s. Inr \<lparr>ident = length s, getDeps = [], getDepObjects = []\<rparr>)\<rparr>"

text \<open>The same engine inside a container that is not a document object.\<close>

definition unownedHost :: host where
  "unownedHost = plainHost\<lparr>getContainer := Some (OtherContainer 7)\<rparr>"

text \<open>
  Expressions of the owner: \<open>exprA\<close> reads \<open>B\<close> (it stands for \<open>B + 1\<close>), \<open>exprB\<close> reads
  \<open>C\<close> (\<open>C * 2\<close>), \<open>exprBack\<close> reads \<open>A\<close> (\<open>A - 1\<close>); \<open>exprX\<close> reads the property
  \<open>value\<close> of the other object.
\<close>

definition exprA :: Expression where
  "exprA = \<lparr>ident = 1, getDeps = [(1, [(''B'', [''B''])])], getDepObjects = [Some 1]\<rparr>"

definition exprB :: Expression where
  "exprB = \<lparr>ident = 2, getDeps = [(1, [(''C'', [''C''])])], getDepObjects = [Some 1]\<rparr>"

definition exprBack :: Expression where
  "exprBack = \<lparr>ident = 3, getDeps = [(1, [(''A'', [''A''])])], getDepObjects = [Some 1]\<rparr>"

definition exprX :: Expression where
  "exprX = \<lparr>ident = 4, getDeps = [(2, [(''value'', [''other.value''])])],
             getDepObjects = [Some 2]\<rparr>"

definition valueOf :: "world \<Rightarrow> ObjectIdentifier \<Rightarrow> any" where
  "valueOf w p = (case propertyValues w p of None \<Rightarrow> 0 | Some v \<Rightarrow> v)"

text \<open>The host that can evaluate \<open>exprA\<close> and \<open>exprB\<close>.\<close>

definition chainHost :: host where
  "chainHost =
     plainHost\<lparr>eval := (\<lambda>e w. if ident e = 1 then (Inr (valueOf w ''B'' + 1), w)
                              else if ident e = 2 then (Inr (valueOf w ''C'' * 2), w)
                              else (Inl (HostException ''cannot evaluate''), w))\<rparr>"

text \<open>\<open>A = B + 1\<close> and \<open>B = C * 2\<close> are bound, and \<open>C\<close> is 3.\<close>

definition chainWorld :: world where
  "chainWorld =
     emptyWorld\<lparr>expressions := [(''A'', \<lparr>expression = exprA, comment = []\<rparr>),
                                (''B'', \<lparr>expression = exprB, comment = []\<rparr>)],
                 propertyValues := [''C'' \<mapsto> 3]\<rparr>"

text \<open>
  A host whose property setter runs a nested \<^verbatim>\<open>execute\<close> before it stores the value, and
  fails if the nested call wrote anything.
\<close>

definition reentrantHost :: host where
  "reentrantHost =
     chainHost\<lparr>propSetPathValue := (\<lambda>prop p v w.
        let r = execute chainHost w (- 1)
        in if snd (snd r) \<noteq> [] then (Inl (HostException ''nested execute wrote''), fst (snd r))
           else (case fst r of Inl e \<Rightarrow> Inl e | Inr ok \<Rightarrow> Inr (),
                 (fst (snd r))\<lparr>propertyValues := (propertyValues (fst (snd r)))(p \<mapsto> v)\<rparr>))\<rparr>"

text \<open>Only \<open>A = B + 1\<close> is bound; the same with a validator that rejects everything.\<close>

definition boundA :: world where
  "boundA = emptyWorld\<lparr>expressions := [(''A'', \<lparr>expression = exprA, comment = []\<rparr>)]\<rparr>"

definition rejecting :: world where
  "rejecting = boundA\<lparr>validator := Some (\<lambda>p e. ''rejected'')\<rparr>"

text \<open>\<open>A = other.value\<close> is bound and its back-link is registered on object 2.\<close>

definition foreignWorld :: world where
  "foreignWorld =
     emptyWorld\<lparr>expressions := [(''A'', \<lparr>expression = exprX, comment = []\<rparr>)],
                 backLinks := [(2, 1)]\<rparr>"

text \<open>
  An expression with a whole-object dependency (empty property name) beside a property
  dependency.
\<close>

definition exprMixed :: Expression where
  "exprMixed = \<lparr>ident = 7, getDeps = [(2, [([], [''other'']), (''value'', [''other.value''])])],
                 getDepObjects = [Some 2]\<rparr>"

text \<open>
  Two bound properties of the owner: \<open>P\<close>, flagged as output, bound to the constant
  \<open>exprP\<close> (5), and \<open>Q\<close>, not flagged, bound to \<open>exprQ\<close> (\<open>P + 1\<close>).
\<close>

definition outputProp :: Property where
  "outputProp = ownerProp\<lparr>statusOutput := True\<rparr>"

definition exprP :: Expression where
  "exprP = \<lparr>ident = 5, getDeps = [], getDepObjects = []\<rparr>"

definition exprQ :: Expression where
  "exprQ = \<lparr>ident = 6, getDeps = [(1, [(''P'', [''P''])])], getDepObjects = [Some 1]\<rparr>"

definition filterHost :: host where
  "filterHost =
     plainHost\<lparr>getProperty := (\<lambda>p. if p = ''P'' then Some (outputProp, 0)
                                     else if p = ''Q'' then Some (ownerProp, 0) else None),
               eval := (\<lambda>e w. if ident e = 6 then (Inr (valueOf w ''P'' + 1), w)
                              else (Inr 5, w))\<rparr>"

definition filterWorld :: world where
  "filterWorld =
     emptyWorld\<lparr>expressions := [(''P'', \<lparr>expression = exprP, comment = []\<rparr>),
                                (''Q'', \<lparr>expression = exprQ, comment = []\<rparr>)]\<rparr>"

text \<open>
  A host whose parser returns \<open>exprX\<close> for the text \<open>other.value\<close>, and a serialized
  engine with two bindings: \<open>A = other.value\<close> with a comment, and \<open>B\<close> bound to the
  expression \<open>exprB22\<close> that the parser returns for \<open>22\<close>.
\<close>

definition restoreHost :: host where
  "restoreHost =
     plainHost\<lparr>parseExpression := (\<lambda>d s. if s = ''other.value'' then Inr exprX
                                          else Inr \<lparr>ident = length s, getDeps = [],
                                                    getDepObjects = []\<rparr>)\<rparr>"

definition reader2 :: XMLReader where
  "reader2 =
     \<lparr>countAttr = 2,
      elements = [\<lparr>pathAttr = ''A'', expressionAttr = ''other.value'', commentAttr = Some ''note''\<rparr>,
                  \<lparr>pathAttr = ''B'', expressionAttr = ''22'', commentAttr = None\<rparr>]\<rparr>"

definition exprB22 :: Expression where
  "exprB22 = \<lparr>ident = 2, getDeps = [], getDepObjects = []\<rparr>"

section \<open>Lookup is not total\<close>

text \<open>
  C10. \<^verbatim>\<open>getPathValue\<close> does not always answer "binding or absent": when the container of
  the engine is not a document object, or the path does not resolve to a property, the
  lookup raises the error of the canonicalization; the empty answer is given only for a
  path that resolves and whose canonical form has no binding.
\<close>

theorem getPathValue_not_total:
  "(freecad_dynamic_cast (getContainer h) = None \<longrightarrow>
      getPathValue h w p =
        Inl (RuntimeError ''PropertyExpressionEngine must be owned by a DocumentObject.'')) \<and>
   (freecad_dynamic_cast (getContainer h) \<noteq> None \<and> getProperty h p = None \<longrightarrow>
      getPathValue h w p = Inl (RuntimeError (resolveErrorString h p))) \<and>
   (getPathValue h w p = Inr None \<longrightarrow>
      freecad_dynamic_cast (getContainer h) \<noteq> None \<and> getProperty h p \<noteq> None \<and>
      (\<exists>usePath. canonicalPath h p = Inr usePath \<and> map_of (expressions w) usePath = None))"
  by (auto simp: getPathValue_def canonicalPath_def split: option.splits sum.splits prod.splits if_splits)

theorem getPathValue_not_total_witness:
  "freecad_dynamic_cast (getContainer unownedHost) = None \<and>
   getPathValue unownedHost emptyWorld ''A'' =
     Inl (RuntimeError ''PropertyExpressionEngine must be owned by a DocumentObject.'') \<and>
   freecad_dynamic_cast (getContainer plainHost) \<noteq> None \<and> getProperty plainHost ''Z'' = None \<and>
   getPathValue plainHost emptyWorld ''Z'' = Inl (RuntimeError ''Property not found: Z'') \<and>
   getPathValue plainHost emptyWorld ''A'' = Inr None \<and>
   canonicalPath plainHost ''A'' = Inr ''A'' \<and> map_of (expressions emptyWorld) ''A'' = None"
  using getPathValue_not_total [of unownedHost emptyWorld "''A''"]
        getPathValue_not_total [of plainHost emptyWorld "''Z''"]
        getPathValue_not_total [of plainHost emptyWorld "''A''"]
  by (simp add: getPathValue_def canonicalPath_def unownedHost_def plainHost_def emptyWorld_def
      ownerProp_def)

section \<open>Facts about the concrete hosts\<close>

lemma canonicalPath_plain_A: "canonicalPath plainHost ''A'' = Inr ''A''"
  by (simp add: canonicalPath_def plainHost_def ownerProp_def)

lemma container_chainHost: "freecad_dynamic_cast (getContainer chainHost) = Some 1"
  by (simp add: chainHost_def plainHost_def)

lemma not_running_chainWorld: "\<not> running chainWorld"
  by (simp add: chainWorld_def emptyWorld_def)

lemma order_chainHost:
  "computeEvaluationOrder chainHost (chainWorld\<lparr>running := True\<rparr>) (- 1) = Inr [''B'', ''A'']"
  by (simp add: computeEvaluationOrder_def buildGraph_def buildGraphStructures_def
      addDependencies_def addDependency_def nodeIndex_def chainWorld_def emptyWorld_def exprA_def
      exprB_def chainHost_def plainHost_def add_edge_def depth_first_search_def
      depth_first_visit_def dfs_init_def dfs_step_def out_edges_def cycle_detector_def
      topological_sort_def List.map_filter_def Let_def)

lemma writes_chainHost:
  "snd (snd (execute chainHost chainWorld (- 1))) = [(''B'', 6), (''A'', 7)]"
  by (simp add: execute_def container_chainHost not_running_chainWorld order_chainHost Let_def)
     (simp add: chainHost_def plainHost_def ownerProp_def chainWorld_def emptyWorld_def exprA_def
      exprB_def valueOf_def)

lemma execute_chainHost:
  "execute chainHost chainWorld (- 1)
     = (Inr StdReturn, chainWorld\<lparr>propertyValues := [''C'' \<mapsto> 3, ''B'' \<mapsto> 6, ''A'' \<mapsto> 7]\<rparr>,
        [(''B'', 6), (''A'', 7)])"
  by (simp add: execute_def container_chainHost not_running_chainWorld order_chainHost Let_def)
     (simp add: chainHost_def plainHost_def ownerProp_def chainWorld_def emptyWorld_def exprA_def
      exprB_def valueOf_def)

lemma nested_unguarded:
  "fst (propSetPathValue reentrantHost ownerProp ''B'' 6 chainWorld)
     = Inl (HostException ''nested execute wrote'')"
  by (simp add: reentrantHost_def execute_chainHost Let_def)

lemma reentrantHost_callbacks:
  "reentrantHost = chainHost\<lparr>eval := eval chainHost,
                                  propSetPathValue := propSetPathValue reentrantHost\<rparr>"
  by (simp add: reentrantHost_def)

lemma chainHost_keeps_flag:
  "running v \<Longrightarrow> running (snd (eval chainHost e v)) \<and>
                 running (snd (propSetPathValue chainHost pr p x v))"
  by (simp add: chainHost_def plainHost_def)

lemma reentrantHost_guarded:
  "running v \<Longrightarrow> propSetPathValue reentrantHost pr p x v = propSetPathValue chainHost pr p x v"
  by (simp add: reentrantHost_def execute_def container_chainHost Let_def)
     (simp add: chainHost_def plainHost_def)

lemma validateExpression_rejecting:
  "validateExpression plainHost rejecting ''A'' exprA = Inr ''rejected''"
  by (simp add: validateExpression_def canonicalPath_plain_A rejecting_def)

section \<open>Setting a binding\<close>

lemma setValue_same_object:
  "canonicalPath h path = Inr usePath \<Longrightarrow> map_of (expressions w) usePath = Some info \<Longrightarrow>
   ident e = ident (expression info) \<Longrightarrow> snd (setValue h w path (Some e) cmt) = w"
  by (auto simp: setValue_def Let_def split: option.splits sum.splits prod.splits)

text \<open>
  C7. When the canonical form of the path already has a binding and the expression passed
  to \<^verbatim>\<open>setValue\<close> is the very object stored there, the call changes nothing: the store,
  the back-links and the signals are what they were. It returns normally as soon as the
  access to the value of the target property, which precedes the comparison, succeeds.
\<close>

theorem setValue_identical_no_effect:
  "canonicalPath h path = Inr usePath \<Longrightarrow> map_of (expressions w) usePath = Some info \<Longrightarrow>
   ident e = ident (expression info) \<Longrightarrow>
     snd (setValue h w path (Some e) cmt) = w \<and>
     (getProperty h usePath = Some (prop, ptype) \<and> propGetPathValue h prop usePath w = Inr v \<longrightarrow>
        setValue h w path (Some e) cmt = (Inr (), w))"
  by (auto simp: setValue_def Let_def split: option.splits sum.splits prod.splits)

theorem setValue_identical_no_effect_witness:
  "canonicalPath plainHost ''A'' = Inr ''A'' \<and>
   map_of (expressions boundA) ''A'' = Some \<lparr>expression = exprA, comment = []\<rparr> \<and>
   getProperty plainHost ''A'' = Some (ownerProp, 0) \<and>
   propGetPathValue plainHost ownerProp ''A'' boundA = Inr 0 \<and>
   setValue plainHost boundA ''A'' (Some exprA) (Some ''note'') = (Inr (), boundA)"
proof -
  have c: "canonicalPath plainHost ''A'' = Inr ''A''"
    by (rule canonicalPath_plain_A)
  have m: "map_of (expressions boundA) ''A'' = Some \<lparr>expression = exprA, comment = []\<rparr>"
    by (simp add: boundA_def emptyWorld_def)
  have i: "ident exprA = ident (expression \<lparr>expression = exprA, comment = []\<rparr>)"
    by simp
  have g: "getProperty plainHost ''A'' = Some (ownerProp, 0)"
    by (simp add: plainHost_def)
  have p: "propGetPathValue plainHost ownerProp ''A'' boundA = Inr 0"
    by (simp add: plainHost_def boundA_def emptyWorld_def)
  from setValue_identical_no_effect [OF c m i, of "Some ''note''" ownerProp 0 0] g p c m
  show ?thesis by simp
qed

text \<open>
  C2, as stated, fails: a non-empty diagnostic of \<^verbatim>\<open>validateExpression\<close> does not
  always make \<^verbatim>\<open>setValue\<close> raise. With \<open>A\<close> bound to \<open>exprA\<close> and a validator that
  rejects everything, passing the stored object again returns normally, because the
  comparison with the stored expression comes before the validation.
\<close>

theorem setValue_validation_counterexample:
  "validateExpression plainHost rejecting ''A'' exprA = Inr ''rejected'' \<and>
   setValue plainHost rejecting ''A'' (Some exprA) None = (Inr (), rejecting)"
  by (simp add: validateExpression_rejecting setValue_def canonicalPath_plain_A)
     (simp add: plainHost_def rejecting_def boundA_def emptyWorld_def)

text \<open>
  C2, amended. When \<^verbatim>\<open>validateExpression\<close> returns a non-empty diagnostic for a path
  whose canonical form is canonical, \<^verbatim>\<open>setValue\<close> leaves the whole world as it was: no
  binding is added, replaced or removed, no back-link is registered or withdrawn. It
  raises the diagnostic as a runtime error when the access to the value of the target
  property succeeds and the store does not hold this very expression object at the
  canonical path.
\<close>

theorem setValue_validation_failure:
  "canonicalPath h path = Inr usePath \<Longrightarrow> canonicalPath h usePath = Inr usePath \<Longrightarrow>
   validateExpression h w path e = Inr msg \<Longrightarrow> msg \<noteq> [] \<Longrightarrow>
     snd (setValue h w path (Some e) cmt) = w \<and>
     (getProperty h usePath = Some (prop, ptype) \<and> propGetPathValue h prop usePath w = Inr v \<and>
      (\<forall>info. map_of (expressions w) usePath = Some info \<longrightarrow> ident (expression info) \<noteq> ident e)
        \<longrightarrow> setValue h w path (Some e) cmt = (Inl (RuntimeError msg), w))"
proof -
  assume c: "canonicalPath h path = Inr usePath" and c': "canonicalPath h usePath = Inr usePath"
    and val: "validateExpression h w path e = Inr msg" and ne: "msg \<noteq> []"
  have "validateExpression h w usePath e = validateExpression h w path e"
    by (simp add: validateExpression_def c c')
  with val have val': "validateExpression h w usePath e = Inr msg"
    by simp
  show ?thesis
    using c val' ne
    by (auto simp: setValue_def Let_def split: option.splits sum.splits prod.splits)
qed

theorem setValue_validation_failure_witness:
  "canonicalPath plainHost ''A'' = Inr ''A'' \<and>
   validateExpression plainHost rejecting ''A'' exprBack = Inr ''rejected'' \<and>
   getProperty plainHost ''A'' = Some (ownerProp, 0) \<and>
   propGetPathValue plainHost ownerProp ''A'' rejecting = Inr 0 \<and>
   map_of (expressions rejecting) ''A'' = Some \<lparr>expression = exprA, comment = []\<rparr> \<and>
   ident exprA \<noteq> ident exprBack \<and>
   setValue plainHost rejecting ''A'' (Some exprBack) None = (Inl (RuntimeError ''rejected''), rejecting)"
proof -
  have c: "canonicalPath plainHost ''A'' = Inr ''A''"
    by (rule canonicalPath_plain_A)
  have val: "validateExpression plainHost rejecting ''A'' exprBack = Inr ''rejected''"
    by (simp add: validateExpression_def canonicalPath_plain_A rejecting_def)
  have ne: "''rejected'' \<noteq> []"
    by simp
  have g: "getProperty plainHost ''A'' = Some (ownerProp, 0)"
    by (simp add: plainHost_def)
  have p: "propGetPathValue plainHost ownerProp ''A'' rejecting = Inr 0"
    by (simp add: plainHost_def rejecting_def boundA_def emptyWorld_def)
  have i: "\<forall>info. map_of (expressions rejecting) ''A'' = Some info
             \<longrightarrow> ident (expression info) \<noteq> ident exprBack"
    by (simp add: rejecting_def boundA_def emptyWorld_def exprA_def exprBack_def)
  have m: "map_of (expressions rejecting) ''A'' = Some \<lparr>expression = exprA, comment = []\<rparr>"
    by (simp add: rejecting_def boundA_def emptyWorld_def)
  have d: "ident exprA \<noteq> ident exprBack"
    by (simp add: exprA_def exprBack_def)
  from setValue_validation_failure [OF c c val ne, of None ownerProp 0 0] c val g p i m d
  show ?thesis by simp
qed

section \<open>The re-entrancy guard\<close>

lemma addDependency_callbacks:
  "addDependency (h\<lparr>eval := ev, propSetPathValue := sp\<rparr>) = addDependency h"
  by (intro ext) (simp add: addDependency_def)

lemma buildGraphStructures_callbacks:
  "buildGraphStructures (h\<lparr>eval := ev, propSetPathValue := sp\<rparr>) = buildGraphStructures h"
  by (intro ext)
     (simp add: buildGraphStructures_def addDependencies_def addDependency_callbacks Let_def
        cong: if_cong)

lemma buildGraphLoop_callbacks:
  "buildGraphLoop (h\<lparr>eval := ev, propSetPathValue := sp\<rparr>) output exprs acc
     = buildGraphLoop h output exprs acc"
  by (induction exprs arbitrary: acc)
     (simp_all add: buildGraphStructures_callbacks split: option.splits)

lemma computeEvaluationOrder_callbacks:
  "computeEvaluationOrder (h\<lparr>eval := ev, propSetPathValue := sp\<rparr>) w output
     = computeEvaluationOrder h w output"
  by (simp add: computeEvaluationOrder_def buildGraph_def buildGraphLoop_callbacks Let_def
      split: sum.splits prod.splits)

lemma executeLoop_callbacks:
  assumes ke: "\<And>e v. running v \<Longrightarrow> running (snd (eval h e v))"
    and ks: "\<And>pr p x v. running v \<Longrightarrow> running (snd (propSetPathValue h pr p x v))"
    and ae: "\<And>e v. running v \<Longrightarrow> ev e v = eval h e v"
    and as: "\<And>pr p x v. running v \<Longrightarrow> sp pr p x v = propSetPathValue h pr p x v"
  shows "running w \<Longrightarrow>
         executeLoop (h\<lparr>eval := ev, propSetPathValue := sp\<rparr>) docObj ps w written
           = executeLoop h docObj ps w written"
proof (induction ps arbitrary: w written)
  case Nil
  show ?case by simp
next
  case (Cons p ps)
  show ?case
  proof (cases "getProperty h p")
    case None
    then show ?thesis by simp
  next
    case (Some pp)
    obtain pr pt where pp: "pp = (pr, pt)" by (cases pp)
    show ?thesis
    proof (cases "map_of (expressions w) p")
      case None
      with Some pp show ?thesis by simp
    next
      case (Some info)
      note info = this
      obtain r1 w1 where e: "eval h (expression info) w = (r1, w1)"
        by (cases "eval h (expression info) w")
      from ke [OF Cons.prems, of "expression info"] e have r1: "running w1" by simp
      show ?thesis
      proof (cases r1)
        case (Inl err)
        with \<open>getProperty h p = Some pp\<close> pp info e ae [OF Cons.prems] show ?thesis by simp
      next
        case (Inr x)
        obtain r2 w2 where s: "propSetPathValue h pr p x w1 = (r2, w2)"
          by (cases "propSetPathValue h pr p x w1")
        from ks [OF r1, of pr p x] s have r2: "running w2" by simp
        from \<open>getProperty h p = Some pp\<close> pp info e Inr s ae [OF Cons.prems] as [OF r1]
          Cons.IH [OF r2]
        show ?thesis by (cases r2) simp_all
      qed
    qed
  qed
qed

text \<open>
  C4. A call of \<^verbatim>\<open>execute\<close> on an engine that is already executing (the flag can only
  be set under an owner that is a document object) returns success at once: the world is
  unchanged and nothing is written. After a call that found the flag clear, the flag is
  clear again, whatever the exit: a normal return, an exception of the order
  computation, of an evaluation or of a write, and whatever the callbacks did. While the
  call runs the flag is up: every evaluation and every write-back is started in a world
  whose flag is set (the callbacks do not lower it: the only code that writes the flag is
  \<^verbatim>\<open>execute\<close>, and a nested call leaves a raised flag as it is), so the call does not
  depend on what the callbacks would do with the flag down, and a nested \<^verbatim>\<open>execute\<close>
  started by a callback is the no-op of the first part.
\<close>

theorem execute_reentrancy_guard:
  "(freecad_dynamic_cast (getContainer h) = Some docObj \<and> running w \<longrightarrow>
      execute h w output = (Inr StdReturn, w, [])) \<and>
   (\<not> running w \<longrightarrow> \<not> running (fst (snd (execute h w output)))) \<and>
   ((\<forall>e v. running v \<longrightarrow> running (snd (eval h e v)) \<and> ev e v = eval h e v) \<and>
    (\<forall>pr p x v. running v \<longrightarrow> running (snd (propSetPathValue h pr p x v)) \<and>
                              sp pr p x v = propSetPathValue h pr p x v) \<longrightarrow>
      execute (h\<lparr>eval := ev, propSetPathValue := sp\<rparr>) w output = execute h w output)"
proof (intro conjI impI)
  assume "freecad_dynamic_cast (getContainer h) = Some docObj \<and> running w"
  then show "execute h w output = (Inr StdReturn, w, [])"
    by (simp add: execute_def)
next
  assume "\<not> running w"
  then show "\<not> running (fst (snd (execute h w output)))"
    by (simp add: execute_def Let_def split: option.splits)
next
  assume a: "(\<forall>e v. running v \<longrightarrow> running (snd (eval h e v)) \<and> ev e v = eval h e v) \<and>
    (\<forall>pr p x v. running v \<longrightarrow> running (snd (propSetPathValue h pr p x v)) \<and>
                              sp pr p x v = propSetPathValue h pr p x v)"
  have loop: "executeLoop (h\<lparr>eval := ev, propSetPathValue := sp\<rparr>) d ps (w\<lparr>running := True\<rparr>) []
                = executeLoop h d ps (w\<lparr>running := True\<rparr>) []" for d ps
    by (rule executeLoop_callbacks) (use a in simp_all)
  show "execute (h\<lparr>eval := ev, propSetPathValue := sp\<rparr>) w output = execute h w output"
    by (simp add: execute_def computeEvaluationOrder_callbacks loop Let_def
        split: option.splits sum.splits)
qed

theorem execute_reentrancy_guard_witness:
  "running (chainWorld\<lparr>running := True\<rparr>) \<and>
   execute chainHost (chainWorld\<lparr>running := True\<rparr>) (- 1)
     = (Inr StdReturn, chainWorld\<lparr>running := True\<rparr>, []) \<and>
   \<not> running chainWorld \<and>
   fst (propSetPathValue reentrantHost ownerProp ''B'' 6 chainWorld)
     = Inl (HostException ''nested execute wrote'') \<and>
   execute reentrantHost chainWorld (- 1)
     = (Inr StdReturn, chainWorld\<lparr>propertyValues := [''C'' \<mapsto> 3, ''B'' \<mapsto> 6, ''A'' \<mapsto> 7]\<rparr>,
        [(''B'', 6), (''A'', 7)]) \<and>
   \<not> running (fst (snd (execute reentrantHost chainWorld (- 1))))"
proof -
  have g: "execute (chainHost\<lparr>eval := eval chainHost,
                                propSetPathValue := propSetPathValue reentrantHost\<rparr>) chainWorld (- 1)
             = execute chainHost chainWorld (- 1)"
    using execute_reentrancy_guard [of chainHost 1 chainWorld "- 1" "eval chainHost"
            "propSetPathValue reentrantHost"]
          chainHost_keeps_flag reentrantHost_guarded
    by blast
  have e: "execute reentrantHost chainWorld (- 1) = execute chainHost chainWorld (- 1)"
    using g reentrantHost_callbacks by simp
  from execute_reentrancy_guard [of chainHost 1 "chainWorld\<lparr>running := True\<rparr>" "- 1"]
       container_chainHost
  have n: "execute chainHost (chainWorld\<lparr>running := True\<rparr>) (- 1)
     = (Inr StdReturn, chainWorld\<lparr>running := True\<rparr>, [])"
    by simp
  show ?thesis
    using n e execute_chainHost nested_unguarded not_running_chainWorld
    by simp
qed

section \<open>Breaking dependencies\<close>

text \<open>
  C5 does not hold of the code. \<^verbatim>\<open>getPathsToDocumentObject\<close> collects the identifiers
  that the expressions reference inside the object, not the paths the expressions are
  bound to, so \<^verbatim>\<open>breakDependency\<close> calls \<^verbatim>\<open>setValue(id, nullptr)\<close> on paths that are not
  keys of the store. With \<open>A = other.value\<close> bound, breaking the dependency on object 2
  succeeds and leaves the binding and its back-link in place; object 2 is still a
  dependency afterwards, and a change of \<open>other.value\<close> has been signalled.
\<close>

theorem breakDependency_keeps_binding:
  "fst (breakDependency plainHost foreignWorld [2]) = Inr () \<and>
   expressions (snd (breakDependency plainHost foreignWorld [2])) = expressions foreignWorld \<and>
   backLinks (snd (breakDependency plainHost foreignWorld [2])) = [(2, 1)] \<and>
   signals (snd (breakDependency plainHost foreignWorld [2]))
     = [AboutToSetValue, ExpressionChanged ''other.value'', HasSetValue] \<and>
   getDocumentObjectDeps plainHost (snd (breakDependency plainHost foreignWorld [2])) [] = [2]"
  by (simp add: breakDependency_def getDocumentObjectDeps_def getPathsToDocumentObject_def
      setValue_def canonicalPath_def plainHost_def foreignWorld_def emptyWorld_def exprX_def
      otherProp_def ownerProp_def signallerEnter_def signallerLeave_def expressionChanged_def
      Let_def)

section \<open>The graph builder\<close>

lemma addDependency_addCanonical: "addDependency h path oid = addCanonical path (oidCanonicalPath h oid)"
  by (rule ext) (simp add: addDependency_def addCanonical_def Let_def)

lemma fold_addDependency: "fold (addDependency h path) oids acc = fold (addCanonical path) (map (oidCanonicalPath h) oids) acc"
  by (induction oids arbitrary: acc) (simp_all add: addDependency_addCanonical)

lemma fold_props_flat:
  "fold (\<lambda>info. if fst info = [] then id else fold (addDependency h path) (snd info)) props acc
     = fold (addCanonical path)
         (concat (map (\<lambda>info. if fst info = [] then [] else map (oidCanonicalPath h) (snd info)) props))
         acc"
  by (induction props arbitrary: acc) (simp_all add: fold_addDependency)

lemma addDependencies_flat:
  "addDependencies h path e acc = fold (addCanonical path) (dependencyPaths h e) acc"
proof -
  have "\<And>deps. fold (\<lambda>dep. fold (\<lambda>info. if fst info = [] then id
                                else fold (addDependency h path) (snd info)) (snd dep)) deps acc
      = fold (addCanonical path)
          (concat (map (\<lambda>dep. concat (map (\<lambda>info. if fst info = [] then []
                                             else map (oidCanonicalPath h) (snd info)) (snd dep))) deps))
          acc"
  proof -
    fix deps
    show "?thesis deps"
      by (induction deps arbitrary: acc) (simp_all add: fold_props_flat)
  qed
  then show ?thesis by (simp add: addDependencies_def dependencyPaths_def)
qed

lemma nodeIndex_append: "map_of nodes p \<noteq> None \<Longrightarrow> nodeIndex (nodes @ ext) p = nodeIndex nodes p"
  by (auto simp: nodeIndex_def map_add_def split: option.splits)

lemma fold_addCanonical:
  "map_of nodes path \<noteq> None \<Longrightarrow>
   \<exists>ext. fst (fold (addCanonical path) qs (nodes, edges)) = nodes @ ext \<and>
         snd (fold (addCanonical path) qs (nodes, edges))
           = edges @ map (\<lambda>q. (nodeIndex (nodes @ ext) path, nodeIndex (nodes @ ext) q)) qs \<and>
         fst ` set (nodes @ ext) = fst ` set nodes \<union> set qs \<and>
         (dense nodes \<longrightarrow> dense (nodes @ ext))"
proof (induction qs arbitrary: nodes edges)
  case Nil
  show ?case by (rule exI [of _ "[]"]) simp
next
  case (Cons q qs)
  let ?n1 = "if map_of nodes q = None then nodes @ [(q, length nodes)] else nodes"
  let ?e1 = "edges @ [(nodeIndex ?n1 path, nodeIndex ?n1 q)]"
  have step: "fold (addCanonical path) (q # qs) (nodes, edges) = fold (addCanonical path) qs (?n1, ?e1)"
    by (simp add: addCanonical_def Let_def)
  have p1: "map_of ?n1 path \<noteq> None" using Cons.prems by (auto simp: map_add_def split: option.splits)
  have q1: "map_of ?n1 q \<noteq> None" by (auto simp: map_add_def split: option.splits)
  obtain x1 where x1: "?n1 = nodes @ x1" "fst ` set ?n1 = fst ` set nodes \<union> {q}"
    "dense nodes \<longrightarrow> dense ?n1"
  proof (cases "map_of nodes q = None")
    case True
    then have "q \<notin> fst ` set nodes" by (simp add: map_of_eq_None_iff)
    then have "dense nodes \<longrightarrow> dense (nodes @ [(q, length nodes)])"
      by (auto simp: dense_def)
    with True show ?thesis by (intro that [of "[(q, length nodes)]"]) auto
  next
    case False
    then have "q \<in> fst ` set nodes" by (simp add: map_of_eq_None_iff)
    with False show ?thesis by (intro that [of "[]"]) auto
  qed
  from Cons.IH [OF p1, of ?e1] obtain ext where
    f: "fst (fold (addCanonical path) qs (?n1, ?e1)) = ?n1 @ ext"
    and s: "snd (fold (addCanonical path) qs (?n1, ?e1))
           = ?e1 @ map (\<lambda>q. (nodeIndex (?n1 @ ext) path, nodeIndex (?n1 @ ext) q)) qs"
    and k: "fst ` set (?n1 @ ext) = fst ` set ?n1 \<union> set qs"
    and d: "dense ?n1 \<longrightarrow> dense (?n1 @ ext)" by blast
  have i1: "nodeIndex (?n1 @ ext) path = nodeIndex ?n1 path" by (rule nodeIndex_append [OF p1])
  have i2: "nodeIndex (?n1 @ ext) q = nodeIndex ?n1 q" by (rule nodeIndex_append [OF q1])
  show ?case
  proof (rule exI [of _ "x1 @ ext"], intro conjI)
    show "fst (fold (addCanonical path) (q # qs) (nodes, edges)) = nodes @ x1 @ ext"
      unfolding step f using x1(1) by simp
    show "snd (fold (addCanonical path) (q # qs) (nodes, edges)) =
      edges @ map (\<lambda>q. (nodeIndex (nodes @ x1 @ ext) path, nodeIndex (nodes @ x1 @ ext) q)) (q # qs)"
      unfolding step s using x1(1) i1 i2 by (simp add: append_assoc [symmetric] del: append_assoc)
    show "fst ` set (nodes @ x1 @ ext) = fst ` set nodes \<union> set (q # qs)"
      using k x1(1,2) by (auto simp add: append_assoc [symmetric] simp del: append_assoc)
    show "dense nodes \<longrightarrow> dense (nodes @ x1 @ ext)"
      using d x1(1,3) by (simp add: append_assoc [symmetric] del: append_assoc)
  qed
qed

lemma dense_index:
  assumes "dense nodes" and "map_of nodes p = Some i"
  shows "i < length nodes \<and> nodes ! i = (p, i)"
proof -
  from assms(2) have "(p, i) \<in> set nodes" by (rule map_of_SomeD)
  then obtain j where j: "j < length nodes" "nodes ! j = (p, i)" by (auto simp: in_set_conv_nth)
  from assms(1) have "map snd nodes ! j = [0 ..< length nodes] ! j" by (simp add: dense_def)
  with j have "i = j" by simp
  with j show ?thesis by simp
qed

lemma dense_inj:
  "dense nodes \<Longrightarrow> map_of nodes p = Some i \<Longrightarrow> map_of nodes q = Some i \<Longrightarrow> p = q"
  using dense_index [of nodes p i] dense_index [of nodes q i] by simp

lemma map_of_append_stable: "map_of nodes p \<noteq> None \<Longrightarrow> map_of (nodes @ ext) p = map_of nodes p"
  by (auto simp: map_add_def split: option.splits)

lemma nodeIndex_Some: "map_of nodes p \<noteq> None \<Longrightarrow> map_of nodes p = Some (nodeIndex nodes p)"
  by (auto simp: nodeIndex_def)

lemma buildGraphStructures_char:
  "\<exists>ext. fst (buildGraphStructures h path e (nodes, revNodes, edges)) = nodes @ ext \<and>
         fst (snd (buildGraphStructures h path e (nodes, revNodes, edges)))
           = AList.update (nodeIndex (nodes @ ext) path) path revNodes \<and>
         snd (snd (buildGraphStructures h path e (nodes, revNodes, edges)))
           = edges @ map (\<lambda>q. (nodeIndex (nodes @ ext) path, nodeIndex (nodes @ ext) q))
                         (dependencyPaths h e) \<and>
         fst ` set (nodes @ ext) = fst ` set nodes \<union> {path} \<union> set (dependencyPaths h e) \<and>
         (dense nodes \<longrightarrow> dense (nodes @ ext))"
proof -
  define n1 where "n1 = (if map_of nodes path = None then nodes @ [(path, length nodes)] else nodes)"
  have p1: "map_of n1 path \<noteq> None"
    by (auto simp: n1_def map_add_def split: option.splits)
  obtain x1 where x1: "n1 = nodes @ x1" "fst ` set n1 = fst ` set nodes \<union> {path}"
    "dense nodes \<longrightarrow> dense n1"
  proof (cases "map_of nodes path = None")
    case True
    then have "path \<notin> fst ` set nodes" by (simp add: map_of_eq_None_iff)
    then have "dense nodes \<longrightarrow> dense (nodes @ [(path, length nodes)])"
      by (auto simp: dense_def)
    with True show ?thesis by (intro that [of "[(path, length nodes)]"]) (auto simp: n1_def)
  next
    case False
    then have "path \<in> fst ` set nodes" by (simp add: map_of_eq_None_iff)
    with False show ?thesis by (intro that [of "[]"]) (auto simp: n1_def)
  qed
  have rev1: "(if map_of nodes path = None then AList.update (length nodes) path revNodes
               else AList.update (nodeIndex nodes path) path revNodes)
              = AList.update (nodeIndex n1 path) path revNodes"
    by (auto simp: n1_def nodeIndex_def map_add_def)
  from fold_addCanonical [OF p1, of "dependencyPaths h e" edges] obtain ext where
    f: "fst (fold (addCanonical path) (dependencyPaths h e) (n1, edges)) = n1 @ ext"
    and s: "snd (fold (addCanonical path) (dependencyPaths h e) (n1, edges))
           = edges @ map (\<lambda>q. (nodeIndex (n1 @ ext) path, nodeIndex (n1 @ ext) q)) (dependencyPaths h e)"
    and k: "fst ` set (n1 @ ext) = fst ` set n1 \<union> set (dependencyPaths h e)"
    and d: "dense n1 \<longrightarrow> dense (n1 @ ext)" by blast
  have i1: "nodeIndex (n1 @ ext) path = nodeIndex n1 path" by (rule nodeIndex_append [OF p1])
  have unf: "buildGraphStructures h path e (nodes, revNodes, edges)
      = (fst (fold (addCanonical path) (dependencyPaths h e) (n1, edges)),
         AList.update (nodeIndex n1 path) path revNodes,
         snd (fold (addCanonical path) (dependencyPaths h e) (n1, edges)))"
    unfolding buildGraphStructures_def Let_def addDependencies_flat fst_conv snd_conv rev1 n1_def [symmetric] ..
  have n1: "nodes @ x1 @ ext = n1 @ ext" using x1(1) by simp
  have "fst (buildGraphStructures h path e (nodes, revNodes, edges)) = nodes @ x1 @ ext"
    unfolding unf fst_conv f n1 ..
  moreover have "fst (snd (buildGraphStructures h path e (nodes, revNodes, edges)))
           = AList.update (nodeIndex (nodes @ x1 @ ext) path) path revNodes"
    unfolding unf fst_conv snd_conv n1 i1 ..
  moreover have "snd (snd (buildGraphStructures h path e (nodes, revNodes, edges)))
           = edges @ map (\<lambda>q. (nodeIndex (nodes @ x1 @ ext) path, nodeIndex (nodes @ x1 @ ext) q))
                         (dependencyPaths h e)"
    unfolding unf snd_conv s n1 ..
  moreover have "fst ` set (nodes @ x1 @ ext) = fst ` set nodes \<union> {path} \<union> set (dependencyPaths h e)"
    unfolding n1 k x1(2) ..
  moreover have "dense nodes \<longrightarrow> dense (nodes @ x1 @ ext)"
    unfolding n1 using d x1(3) by blast
  ultimately show ?thesis by blast
qed

lemma graphInv_step:
  assumes inv: "graphInv h ps acc"
  shows "graphInv h (ps @ [it]) (buildGraphStructures h (fst it) (expression (snd it)) acc)"
proof -
  obtain nodes revNodes edges where acc: "acc = (nodes, revNodes, edges)" by (cases acc)
  define p0 where "p0 = fst it"
  define D0 where "D0 = dependencyPaths h (expression (snd it))"
  from buildGraphStructures_char [of h p0 "expression (snd it)" nodes revNodes edges]
  obtain ext where
    n: "fst (buildGraphStructures h p0 (expression (snd it)) acc) = nodes @ ext"
    and r: "fst (snd (buildGraphStructures h p0 (expression (snd it)) acc))
           = AList.update (nodeIndex (nodes @ ext) p0) p0 revNodes"
    and e: "snd (snd (buildGraphStructures h p0 (expression (snd it)) acc))
           = edges @ map (\<lambda>q. (nodeIndex (nodes @ ext) p0, nodeIndex (nodes @ ext) q)) D0"
    and k: "fst ` set (nodes @ ext) = fst ` set nodes \<union> {p0} \<union> set D0"
    and d: "dense nodes \<longrightarrow> dense (nodes @ ext)"
    unfolding acc D0_def by blast
  define nodes' where "nodes' = nodes @ ext"
  from inv have dn: "dense nodes"
    and keys: "\<And>x. x \<in> set ps \<Longrightarrow> map_of nodes (fst x) \<noteq> None"
    and deps: "\<And>x q. x \<in> set ps \<Longrightarrow> q \<in> set (dependencyPaths h (expression (snd x))) \<Longrightarrow> map_of nodes q \<noteq> None"
    and revs: "\<And>i p. (map_of revNodes i = Some p) = (p \<in> fst ` set ps \<and> map_of nodes p = Some i)"
    and edg: "set edges = {(nodeIndex nodes (fst x), nodeIndex nodes q) | x q.
             x \<in> set ps \<and> q \<in> set (dependencyPaths h (expression (snd x)))}"
    unfolding graphInv_def acc fst_conv snd_conv
    by (auto simp: map_of_eq_None_iff)
  have dn': "dense nodes'" using d dn by (simp add: nodes'_def)
  have st: "\<And>x. map_of nodes x \<noteq> None \<Longrightarrow> map_of nodes' x = map_of nodes x"
    unfolding nodes'_def by (rule map_of_append_stable)
  have sti: "\<And>x. map_of nodes x \<noteq> None \<Longrightarrow> nodeIndex nodes' x = nodeIndex nodes x"
    unfolding nodes'_def by (rule nodeIndex_append)
  have in': "\<And>x. x \<in> fst ` set nodes' \<Longrightarrow> map_of nodes' x = Some (nodeIndex nodes' x)"
    by (rule nodeIndex_Some) (simp add: map_of_eq_None_iff)
  have p0': "p0 \<in> fst ` set nodes'" and D0': "set D0 \<subseteq> fst ` set nodes'"
    and old': "fst ` set nodes \<subseteq> fst ` set nodes'"
    using k unfolding nodes'_def by auto
  have g1: "dense (fst (buildGraphStructures h p0 (expression (snd it)) acc))"
    unfolding n nodes'_def [symmetric] by (rule dn')
  have g2: "\<forall>x \<in> set (ps @ [it]). map_of nodes' (fst x) \<noteq> None \<and>
              set (dependencyPaths h (expression (snd x))) \<subseteq> fst ` set nodes'"
  proof
    fix x assume "x \<in> set (ps @ [it])"
    then consider "x \<in> set ps" | "x = it" by auto
    then show "map_of nodes' (fst x) \<noteq> None \<and>
              set (dependencyPaths h (expression (snd x))) \<subseteq> fst ` set nodes'"
    proof cases
      case 1
      have "map_of nodes' (fst x) \<noteq> None" using keys [OF 1] st by simp
      moreover have "set (dependencyPaths h (expression (snd x))) \<subseteq> fst ` set nodes'"
      proof
        fix q assume "q \<in> set (dependencyPaths h (expression (snd x)))"
        from deps [OF 1 this] have "q \<in> fst ` set nodes" by (simp add: map_of_eq_None_iff)
        with old' show "q \<in> fst ` set nodes'" by blast
      qed
      ultimately show ?thesis by blast
    next
      case 2
      then show ?thesis using p0' D0' by (simp add: p0_def D0_def map_of_eq_None_iff)
    qed
  qed
  have g3: "\<And>i p. (map_of (AList.update (nodeIndex nodes' p0) p0 revNodes) i = Some p)
               = (p \<in> fst ` set (ps @ [it]) \<and> map_of nodes' p = Some i)"
  proof -
    fix i p
    show "(map_of (AList.update (nodeIndex nodes' p0) p0 revNodes) i = Some p)
               = (p \<in> fst ` set (ps @ [it]) \<and> map_of nodes' p = Some i)"
    proof (cases "i = nodeIndex nodes' p0")
      case True
      have "map_of nodes' p = Some i \<Longrightarrow> p = p0"
        using dense_inj [OF dn', of p i p0] in' [OF p0'] True by simp
      moreover have "map_of nodes' p0 = Some i" using in' [OF p0'] True by simp
      ultimately show ?thesis using True by (auto simp: update_conv' p0_def)
    next
      case False
      have ne: "map_of nodes' p = Some i \<Longrightarrow> p \<noteq> p0"
        using in' [OF p0'] False by auto
      have "(map_of revNodes i = Some p) = (p \<in> fst ` set ps \<and> map_of nodes' p = Some i)"
      proof
        assume "map_of revNodes i = Some p"
        with revs have a: "p \<in> fst ` set ps" "map_of nodes p = Some i" by auto
        with st [of p] show "p \<in> fst ` set ps \<and> map_of nodes' p = Some i" by simp
      next
        assume a: "p \<in> fst ` set ps \<and> map_of nodes' p = Some i"
        then obtain x where "x \<in> set ps" "p = fst x" by auto
        with keys have "map_of nodes p \<noteq> None" by simp
        with st [of p] a have "map_of nodes p = Some i" by simp
        with a revs show "map_of revNodes i = Some p" by simp
      qed
      with False ne show ?thesis by (auto simp: update_conv' p0_def)
    qed
  qed
  have g4: "set (edges @ map (\<lambda>q. (nodeIndex nodes' p0, nodeIndex nodes' q)) D0)
        = {(nodeIndex nodes' (fst x), nodeIndex nodes' q) | x q.
             x \<in> set (ps @ [it]) \<and> q \<in> set (dependencyPaths h (expression (snd x)))}"
    (is "?L = ?R")
  proof -
    have old: "set edges = {(nodeIndex nodes' (fst x), nodeIndex nodes' q) | x q.
             x \<in> set ps \<and> q \<in> set (dependencyPaths h (expression (snd x)))}"
      unfolding edg using sti keys deps by (auto; metis)
    show ?thesis
    proof (rule set_eqI)
      fix c
      show "c \<in> ?L \<longleftrightarrow> c \<in> ?R"
      proof
        assume "c \<in> ?L"
        then consider "c \<in> set edges" | q where "q \<in> set D0" "c = (nodeIndex nodes' p0, nodeIndex nodes' q)"
          by auto
        then show "c \<in> ?R"
        proof cases
          case 1
          then obtain x q where "x \<in> set ps" "q \<in> set (dependencyPaths h (expression (snd x)))"
            "c = (nodeIndex nodes' (fst x), nodeIndex nodes' q)" unfolding old by blast
          moreover from this have "x \<in> set (ps @ [it])" by simp
          ultimately show ?thesis by blast
        next
          case 2
          then have "it \<in> set (ps @ [it])" "q \<in> set (dependencyPaths h (expression (snd it)))"
            "c = (nodeIndex nodes' (fst it), nodeIndex nodes' q)" by (simp_all add: D0_def p0_def)
          then show ?thesis by blast
        qed
      next
        assume "c \<in> ?R"
        then obtain x q where x: "x \<in> set (ps @ [it])" "q \<in> set (dependencyPaths h (expression (snd x)))"
            "c = (nodeIndex nodes' (fst x), nodeIndex nodes' q)" by blast
        from x(1) consider "x \<in> set ps" | "x = it" by auto
        then show "c \<in> ?L"
        proof cases
          case 1
          with x have "c \<in> set edges" unfolding old by blast
          then show ?thesis by simp
        next
          case 2
          with x show ?thesis by (simp add: D0_def p0_def)
        qed
      qed
    qed
  qed
  show ?thesis
    unfolding graphInv_def p0_def [symmetric]
    using g1 g2 g3 g4
    unfolding n r e nodes'_def [symmetric] by simp
qed

lemma graphInv_fold:
  "graphInv h ps acc \<Longrightarrow>
   graphInv h (ps @ xs) (fold (\<lambda>it. buildGraphStructures h (fst it) (expression (snd it))) xs acc)"
proof (induction xs arbitrary: ps acc)
  case Nil
  then show ?case by simp
next
  case (Cons x xs)
  from Cons.IH [OF graphInv_step [OF Cons.prems, of x]] show ?case by simp
qed

lemma graphInv_empty: "graphInv h [] ([], [], [])"
  by (simp add: graphInv_def dense_def)

lemma buildGraphLoop_Cons:
  "buildGraphLoop h output (it # exprs) acc =
     (if output \<ge> 0 \<and> getProperty h (fst it) = None
      then Inl (RuntimeError ''Path does not resolve to a property.'')
      else if admitted h output (fst it)
      then buildGraphLoop h output exprs (buildGraphStructures h (fst it) (expression (snd it)) acc)
      else buildGraphLoop h output exprs acc)"
proof (cases "output \<ge> 0")
  case False
  then show ?thesis by (simp add: admitted_def)
next
  case True
  show ?thesis
  proof (cases "getProperty h (fst it)")
    case None
    with True show ?thesis by simp
  next
    case (Some a)
    obtain pr pt where a: "a = (pr, pt)" by (cases a)
    show ?thesis
      by (cases "is_output pr"; cases "output > 0")
         (use True in \<open>simp_all add: admitted_def Some a\<close>)
  qed
qed

lemma buildGraphLoop_fold:
  "buildGraphLoop h output exprs acc = Inr acc' \<Longrightarrow>
   acc' = fold (\<lambda>it. buildGraphStructures h (fst it) (expression (snd it)))
               (filter (\<lambda>it. admitted h output (fst it)) exprs) acc"
proof (induction exprs arbitrary: acc)
  case Nil
  then show ?case by simp
next
  case (Cons it exprs)
  show ?case
  proof (cases "admitted h output (fst it)")
    case True
    with Cons.prems have
      "buildGraphLoop h output exprs (buildGraphStructures h (fst it) (expression (snd it)) acc) = Inr acc'"
      unfolding buildGraphLoop_Cons by (simp split: if_splits)
    from Cons.IH [OF this] True show ?thesis by simp
  next
    case False
    with Cons.prems have "buildGraphLoop h output exprs acc = Inr acc'"
      unfolding buildGraphLoop_Cons by (simp split: if_splits)
    from Cons.IH [OF this] False show ?thesis by simp
  qed
qed

lemma buildGraphLoop_inv:
  assumes "buildGraphLoop h output exprs ([], [], []) = Inr acc'"
  shows "graphInv h (filter (\<lambda>it. admitted h output (fst it)) exprs) acc'"
proof -
  have "graphInv h ([] @ filter (\<lambda>it. admitted h output (fst it)) exprs)
          (fold (\<lambda>it. buildGraphStructures h (fst it) (expression (snd it)))
               (filter (\<lambda>it. admitted h output (fst it)) exprs) ([], [], []))"
    by (rule graphInv_fold [OF graphInv_empty])
  then show ?thesis unfolding buildGraphLoop_fold [OF assms, symmetric] by simp
qed

lemma buildGraphLoop_all:
  "output < 0 \<Longrightarrow> \<exists>acc'. buildGraphLoop h output exprs acc = Inr acc'"
  by (induction exprs arbitrary: acc) auto

section \<open>The depth-first search\<close>

lemma set_out_edges: "set (out_edges g u) = {v. (u, v) \<in> set (edge_list g)}"
  by (auto simp: out_edges_def image_iff)

lemma frames_ok_mono:
  "frames_ok E col fl child st \<Longrightarrow> (\<And>v. col v = Black \<Longrightarrow> col' v = Black) \<Longrightarrow> (fl \<Longrightarrow> fl') \<Longrightarrow>
   frames_ok E col' fl' child st"
  by (induction st arbitrary: child) auto

lemma deps_first_snoc:
  "deps_first E l \<Longrightarrow> (\<And>v. (u, v) \<in> E \<Longrightarrow> v \<in> set l) \<Longrightarrow> deps_first E (l @ [u])"
  by (auto simp: deps_first_def nth_append less_Suc_eq)

lemma dfs_inv_step:
  assumes inv: "dfs_inv g s" and ne: "stack s \<noteq> []"
  shows "dfs_inv g (dfs_step g s)"
proof -
  let ?E = "set (edge_list g)"
  from ne obtain u r st where st: "stack s = (u, r) # st" by (cases "stack s") auto
  from inv have I1: "\<And>v. colour s v = Black \<Longrightarrow> v \<in> set (finish_order s)"
    and I2: "\<And>v. colour s v = Gray \<Longrightarrow> v \<in> fst ` set (stack s)"
    and I3: "frames_ok ?E (colour s) (back_edges s \<noteq> []) None (stack s)"
    and I4: "back_edges s = [] \<Longrightarrow> deps_first ?E (finish_order s)"
    by (auto simp: dfs_inv_def)
  from I3 st have top: "\<And>v. (u, v) \<in> ?E \<Longrightarrow> v \<in> set r \<or> colour s v = Black \<or> back_edges s \<noteq> []"
    and below: "frames_ok ?E (colour s) (back_edges s \<noteq> []) (Some u) st"
    by auto
  show ?thesis
  proof (cases r)
    case Nil
    have s': "dfs_step g s = s\<lparr>colour := (colour s)(u := Black), stack := st,
                               finish_order := finish_order s @ [u]\<rparr>"
      by (simp add: dfs_step_def st Nil)
    have f: "frames_ok ?E ((colour s)(u := Black)) (back_edges s \<noteq> []) None st"
    proof (cases st)
      case Nil
      then show ?thesis by simp
    next
      case (Cons f2 rest)
      with below have a: "\<And>v. (fst f2, v) \<in> ?E \<Longrightarrow>
           v \<in> set (snd f2) \<or> colour s v = Black \<or> back_edges s \<noteq> [] \<or> v = u"
        and b: "frames_ok ?E (colour s) (back_edges s \<noteq> []) (Some (fst f2)) rest"
        by auto
      have "frames_ok ?E ((colour s)(u := Black)) (back_edges s \<noteq> []) (Some (fst f2)) rest"
        by (rule frames_ok_mono [OF b]) auto
      with a show ?thesis unfolding Cons by auto
    qed
    have d: "back_edges s = [] \<Longrightarrow> deps_first ?E (finish_order s @ [u])"
    proof -
      assume be: "back_edges s = []"
      show ?thesis
      proof (rule deps_first_snoc [OF I4 [OF be]])
        fix v assume "(u, v) \<in> ?E"
        with top [of v] Nil be have "colour s v = Black" by simp
        then show "v \<in> set (finish_order s)" by (rule I1)
      qed
    qed
    show ?thesis
      unfolding dfs_inv_def s' using I1 I2 f d st by (auto split: if_splits)
  next
    case (Cons v vs)
    show ?thesis
    proof (cases "colour s v")
      case White
      have s': "dfs_step g s = s\<lparr>colour := (colour s)(v := Gray),
                                 stack := (v, out_edges g v) # (u, vs) # st\<rparr>"
        by (simp add: dfs_step_def st Cons White)
      have b': "frames_ok ?E ((colour s)(v := Gray)) (back_edges s \<noteq> []) (Some u) st"
        by (rule frames_ok_mono [OF below]) (use White in auto)
      have f: "frames_ok ?E ((colour s)(v := Gray)) (back_edges s \<noteq> []) None
                 ((v, out_edges g v) # (u, vs) # st)"
        using b' top White Cons by (auto simp: set_out_edges)
      show ?thesis
        unfolding dfs_inv_def s' using I1 I2 I4 f st White by (auto split: if_splits)
    next
      case Gray
      have s': "dfs_step g s = s\<lparr>stack := (u, vs) # st, back_edges := back_edges s @ [(u, v)]\<rparr>"
        by (simp add: dfs_step_def st Cons Gray)
      have b': "frames_ok ?E (colour s) True (Some u) st"
        by (rule frames_ok_mono [OF below]) auto
      show ?thesis
        unfolding dfs_inv_def s' using I1 I2 b' st by auto
    next
      case Black
      have s': "dfs_step g s = s\<lparr>stack := (u, vs) # st\<rparr>"
        by (simp add: dfs_step_def st Cons Black)
      have f: "frames_ok ?E (colour s) (back_edges s \<noteq> []) None ((u, vs) # st)"
        using below top Black Cons by auto
      show ?thesis
        unfolding dfs_inv_def s' using I1 I2 I4 f st by auto
    qed
  qed
qed

lemma dfs_loop_inv: "dfs_inv g s \<Longrightarrow> dfs_inv g (dfs_loop g s) \<and> stack (dfs_loop g s) = []"
proof (induction g s rule: dfs_loop.induct)
  case (1 g s)
  show ?case
  proof (cases "stack s = []")
    case True
    with "1.prems" show ?thesis by simp
  next
    case False
    from "1.IH" [OF False dfs_inv_step [OF "1.prems" False]] False show ?thesis by simp
  qed
qed

lemma dfs_step_nonwhite: "colour s v \<noteq> White \<Longrightarrow> colour (dfs_step g s) v \<noteq> White"
  by (auto simp: dfs_step_def split: list.splits color.splits prod.splits)

lemma dfs_loop_nonwhite: "colour s v \<noteq> White \<Longrightarrow> colour (dfs_loop g s) v \<noteq> White"
proof (induction g s rule: dfs_loop.induct)
  case (1 g s)
  show ?case
  proof (cases "stack s = []")
    case True
    with "1.prems" show ?thesis by simp
  next
    case False
    from "1.IH" [OF False dfs_step_nonwhite [OF "1.prems"]] False show ?thesis by simp
  qed
qed

lemma depth_first_visit_inv:
  assumes inv: "dfs_inv g s" and emp: "stack s = []" and w: "colour s u = White"
  shows "dfs_inv g (depth_first_visit g u s) \<and> stack (depth_first_visit g u s) = []"
proof -
  let ?s1 = "s\<lparr>colour := (colour s)(u := Gray), stack := [(u, out_edges g u)]\<rparr>"
  have "dfs_inv g ?s1"
    using inv emp w by (auto simp: dfs_inv_def set_out_edges)
  from dfs_loop_inv [OF this] show ?thesis by (simp add: depth_first_visit_def)
qed

lemma depth_first_visit_nonwhite:
  "colour s v \<noteq> White \<or> v = u \<Longrightarrow> colour (depth_first_visit g u s) v \<noteq> White"
  unfolding depth_first_visit_def by (rule dfs_loop_nonwhite) auto

lemma dfs_fold:
  "dfs_inv g s \<Longrightarrow> stack s = [] \<Longrightarrow>
   dfs_inv g (fold (\<lambda>u s. if colour s u = White then depth_first_visit g u s else s) us s) \<and>
   stack (fold (\<lambda>u s. if colour s u = White then depth_first_visit g u s else s) us s) = [] \<and>
   (\<forall>v. colour s v \<noteq> White \<or> v \<in> set us \<longrightarrow>
        colour (fold (\<lambda>u s. if colour s u = White then depth_first_visit g u s else s) us s) v \<noteq> White)"
proof (induction us arbitrary: s)
  case Nil
  then show ?case by simp
next
  case (Cons u us)
  define s1 where "s1 = (if colour s u = White then depth_first_visit g u s else s)"
  define F where "F = (\<lambda>u s. if colour s u = White then depth_first_visit g u s else s)"
  have a: "dfs_inv g s1" "stack s1 = []"
    using depth_first_visit_inv [OF Cons.prems] Cons.prems by (auto simp: s1_def)
  have b: "\<And>v. colour s v \<noteq> White \<or> v = u \<Longrightarrow> colour s1 v \<noteq> White"
    using depth_first_visit_nonwhite [of s _ u g] by (auto simp: s1_def)
  from Cons.IH [OF a] have c: "dfs_inv g (fold F us s1)" "stack (fold F us s1) = []"
    and c3: "\<And>v. colour s1 v \<noteq> White \<or> v \<in> set us \<Longrightarrow> colour (fold F us s1) v \<noteq> White"
    unfolding F_def by blast+
  have fold_eq: "fold F (u # us) s = fold F us s1"
    by (simp add: F_def s1_def)
  have "\<forall>v. colour s v \<noteq> White \<or> v \<in> set (u # us) \<longrightarrow> colour (fold F us s1) v \<noteq> White"
  proof (intro allI impI)
    fix v assume "colour s v \<noteq> White \<or> v \<in> set (u # us)"
    then have "colour s1 v \<noteq> White \<or> v \<in> set us" using b [of v] by auto
    then show "colour (fold F us s1) v \<noteq> White" by (rule c3)
  qed
  with c show ?case unfolding F_def [symmetric] fold_eq by blast
qed

lemma dfs_init_inv: "dfs_inv g dfs_init"
  by (simp add: dfs_inv_def dfs_init_def deps_first_def)

lemma depth_first_search_props:
  "dfs_inv g (depth_first_search g) \<and> stack (depth_first_search g) = [] \<and>
   (\<forall>v < num_vertices g. colour (depth_first_search g) v \<noteq> White)"
  using dfs_fold [OF dfs_init_inv, of g "[0 ..< num_vertices g]"]
  by (simp add: depth_first_search_def dfs_init_def)

lemma depth_first_search_finished:
  "v < num_vertices g \<Longrightarrow> v \<in> set (finish_order (depth_first_search g))"
proof -
  assume "v < num_vertices g"
  with depth_first_search_props [of g] have nw: "colour (depth_first_search g) v \<noteq> White"
    and st: "stack (depth_first_search g) = []" and inv: "dfs_inv g (depth_first_search g)"
    by auto
  from inv st have "colour (depth_first_search g) v \<noteq> Gray" by (auto simp: dfs_inv_def)
  with nw have "colour (depth_first_search g) v = Black"
    by (cases "colour (depth_first_search g) v") auto
  with inv show ?thesis by (auto simp: dfs_inv_def)
qed

lemma depth_first_search_deps_first:
  "back_edges (depth_first_search g) = [] \<Longrightarrow>
   deps_first (set (edge_list g)) (finish_order (depth_first_search g))"
  using depth_first_search_props [of g] by (auto simp: dfs_inv_def)

lemma cycle_detector_flag: "fst (cycle_detector s) = (back_edges s \<noteq> [])"
proof -
  have "\<And>r. fst (fold (\<lambda>e r. (True, int (fst e))) xs r) = (fst r \<or> xs \<noteq> [])" for xs :: "Edge list"
    by (induction xs) auto
  then show ?thesis by (simp add: cycle_detector_def)
qed

section \<open>A graph that passes the check is acyclic\<close>

lemma fold_add_edge_list:
  "edge_list (fold (\<lambda>e. add_edge (fst e) (snd e)) edges g) = edge_list g @ edges"
  by (induction edges arbitrary: g) (simp_all add: add_edge_def)

lemma fold_add_edge_mono:
  "num_vertices g \<le> num_vertices (fold (\<lambda>e. add_edge (fst e) (snd e)) edges g)"
proof (induction edges arbitrary: g)
  case Nil
  show ?case by simp
next
  case (Cons e edges)
  have "num_vertices g \<le> num_vertices (add_edge (fst e) (snd e) g)"
    by (simp add: add_edge_def)
  also note Cons.IH [of "add_edge (fst e) (snd e) g"]
  finally show ?case by simp
qed

lemma fold_add_edge_bound:
  "e \<in> set edges \<Longrightarrow>
   fst e < num_vertices (fold (\<lambda>e. add_edge (fst e) (snd e)) edges g) \<and>
   snd e < num_vertices (fold (\<lambda>e. add_edge (fst e) (snd e)) edges g)"
proof (induction edges arbitrary: g)
  case Nil
  then show ?case by simp
next
  case (Cons a edges)
  show ?case
  proof (cases "e = a")
    case True
    have "fst e < num_vertices (add_edge (fst e) (snd e) g) \<and>
          snd e < num_vertices (add_edge (fst e) (snd e) g)"
      by (simp add: add_edge_def less_max_iff_disj less_Suc_eq_le)
    with fold_add_edge_mono [of "add_edge (fst e) (snd e) g" edges] True
    show ?thesis by auto
  next
    case False
    with Cons.prems have "e \<in> set edges" by simp
    from Cons.IH [OF this, of "add_edge (fst a) (snd a) g"] show ?thesis by simp
  qed
qed

lemma first_index:
  "x \<in> set c \<Longrightarrow>
   length (takeWhile (\<lambda>z. z \<noteq> x) c) < length c \<and> c ! length (takeWhile (\<lambda>z. z \<noteq> x) c) = x"
  by (induction c) auto

lemma first_index_le:
  assumes "j < length c" "c ! j = y"
  shows "length (takeWhile (\<lambda>z. z \<noteq> y) c) \<le> j"
proof (rule ccontr)
  assume "\<not> ?thesis"
  then have lt: "j < length (takeWhile (\<lambda>z. z \<noteq> y) c)" by simp
  then have "takeWhile (\<lambda>z. z \<noteq> y) c ! j \<in> set (takeWhile (\<lambda>z. z \<noteq> y) c)" by simp
  then have "takeWhile (\<lambda>z. z \<noteq> y) c ! j \<noteq> y" by (rule set_takeWhileD [THEN conjunct2])
  with takeWhile_nth [OF lt] assms show False by simp
qed

lemma deps_first_acyclic:
  assumes df: "deps_first E c"
    and R: "\<And>p q. (p, q) \<in> R \<Longrightarrow> (f p, f q) \<in> E \<and> f p \<in> set c"
  shows "acyclic R"
proof -
  define rank where "rank p = length (takeWhile (\<lambda>z. z \<noteq> f p) c)" for p
  have "R \<subseteq> (measure rank)\<inverse>"
  proof
    fix x assume "x \<in> R"
    then obtain p q where x: "x = (p, q)" "(p, q) \<in> R" by (cases x) auto
    from R [OF x(2)] have e: "(f p, f q) \<in> E" and m: "f p \<in> set c" by auto
    from first_index [OF m] have i: "rank p < length c" "c ! rank p = f p"
      by (simp_all add: rank_def)
    from df i e have "f q \<in> set (take (rank p) c)" by (auto simp: deps_first_def)
    then obtain j where j: "j < rank p" "j < length c" "c ! j = f q"
      by (auto simp: in_set_conv_nth)
    from first_index_le [OF j(2,3)] j(1) have "rank q < rank p" by (simp add: rank_def)
    then show "x \<in> (measure rank)\<inverse>" by (simp add: x)
  qed
  moreover have "acyclic ((measure rank)\<inverse>)"
    by (simp add: acyclic_converse wf_acyclic)
  ultimately show ?thesis by (rule acyclic_subset [rotated])
qed

lemma buildGraph_Inr:
  assumes "buildGraph h exprs [] output = Inr (revNodes, g)"
  shows "\<exists>nodes. graphInv h (filter (\<lambda>it. admitted h output (fst it)) exprs) (nodes, revNodes, edge_list g) \<and>
           (\<forall>e \<in> set (edge_list g). fst e < num_vertices g \<and> snd e < num_vertices g) \<and>
           back_edges (depth_first_search g) = []"
proof -
  from assms obtain nodes edges where
    loop: "buildGraphLoop h output exprs ([], [], []) = Inr (nodes, revNodes, edges)"
    and g: "g = fold (\<lambda>e. add_edge (fst e) (snd e)) edges \<lparr>num_vertices = length revNodes, edge_list = []\<rparr>"
    and nb: "\<not> fst (cycle_detector (depth_first_search g))"
    by (auto simp: buildGraph_def Let_def split: sum.splits prod.splits if_splits)
  have el: "edge_list g = edges"
    unfolding g by (simp add: fold_add_edge_list)
  have bound: "\<forall>e \<in> set edges. fst e < num_vertices g \<and> snd e < num_vertices g"
    unfolding g by (intro ballI fold_add_edge_bound)
  from buildGraphLoop_inv [OF loop] nb el bound show ?thesis
    by (auto simp: cycle_detector_flag)
qed

lemma graphInv_edge:
  assumes inv: "graphInv h ps (nodes, revNodes, edges)"
    and it: "(p, info) \<in> set ps" and q: "q \<in> set (dependencyPaths h (expression info))"
  shows "(nodeIndex nodes p, nodeIndex nodes q) \<in> set edges"
proof -
  from inv have "set edges = {(nodeIndex nodes (fst it), nodeIndex nodes q) | it q.
             it \<in> set ps \<and> q \<in> set (dependencyPaths h (expression (snd it)))}"
    by (simp add: graphInv_def)
  moreover have "(nodeIndex nodes p, nodeIndex nodes q) \<in> {(nodeIndex nodes (fst it), nodeIndex nodes q) | it q.
             it \<in> set ps \<and> q \<in> set (dependencyPaths h (expression (snd it)))}"
    by (rule CollectI, rule exI [of _ "(p, info)"], rule exI [of _ q]) (simp add: it q)
  ultimately show ?thesis by simp
qed

lemma buildGraph_acyclic:
  assumes "buildGraph h exprs [] output = Inr (revNodes, g)"
  shows "acyclic (dependencyGraph h (filter (\<lambda>it. admitted h output (fst it)) exprs))"
proof -
  let ?ps = "filter (\<lambda>it. admitted h output (fst it)) exprs"
  from buildGraph_Inr [OF assms] obtain nodes where
    inv: "graphInv h ?ps (nodes, revNodes, edge_list g)"
    and bound: "\<forall>e \<in> set (edge_list g). fst e < num_vertices g \<and> snd e < num_vertices g"
    and nb: "back_edges (depth_first_search g) = []" by blast
  show ?thesis
  proof (rule deps_first_acyclic [OF depth_first_search_deps_first [OF nb], of _ "nodeIndex nodes"])
    fix p q assume "(p, q) \<in> dependencyGraph h ?ps"
    then obtain info where "(p, info) \<in> set ?ps" "q \<in> set (dependencyPaths h (expression info))"
      by (auto simp: dependencyGraph_def)
    from graphInv_edge [OF inv this] have e: "(nodeIndex nodes p, nodeIndex nodes q) \<in> set (edge_list g)" .
    with bound have "nodeIndex nodes p < num_vertices g" by auto
    from depth_first_search_finished [OF this] e
    show "(nodeIndex nodes p, nodeIndex nodes q) \<in> set (edge_list g) \<and>
          nodeIndex nodes p \<in> set (finish_order (depth_first_search g))" by simp
  qed
qed

lemma admitted_all: "output < 0 \<Longrightarrow> filter (\<lambda>it. admitted h output (fst it)) exprs = exprs"
  by (simp add: admitted_def)

lemma buildGraph_cases:
  assumes "output < 0"
  shows "(\<exists>r. buildGraph h exprs revNodes output = Inr r) \<or>
   (\<exists>s. buildGraph h exprs revNodes output = Inl (RuntimeError (s @ '' reference creates a cyclic dependency.'')))"
proof -
  from buildGraphLoop_all [OF assms, of h exprs "([], revNodes, [])"] obtain nodes revNodes' edges where
    loop: "buildGraphLoop h output exprs ([], revNodes, []) = Inr (nodes, revNodes', edges)"
    by (metis prod_cases3)
  define g where "g = fold (\<lambda>e. add_edge (fst e) (snd e)) edges \<lparr>num_vertices = length revNodes', edge_list = []\<rparr>"
  show ?thesis
  proof (cases "fst (cycle_detector (depth_first_search g))")
    case True
    then have "buildGraph h exprs revNodes output
       = Inl (RuntimeError (toString h (revNodeAt revNodes' (snd (cycle_detector (depth_first_search g))))
                                       @ '' reference creates a cyclic dependency.''))"
      by (simp add: buildGraph_def loop Let_def g_def)
    then show ?thesis by blast
  next
    case False
    then have "buildGraph h exprs revNodes output = Inr (revNodes', g)"
      by (simp add: buildGraph_def loop Let_def g_def)
    then show ?thesis by blast
  qed
qed

lemma set_dependencyPaths:
  "set (dependencyPaths h e) =
     {oidCanonicalPath h oid | obj props name oids oid.
        (obj, props) \<in> set (getDeps e) \<and> (name, oids) \<in> set props \<and> name \<noteq> [] \<and> oid \<in> set oids}"
  unfolding dependencyPaths_def by (auto split: if_splits) force+

text \<open>
  C8. For a binding processed by \<^verbatim>\<open>buildGraphStructures\<close>, the nodes are extended and the
  edges appended so that: the new edges are exactly the pairs of the index of the bound
  path and the index of the canonical form of a dependency identifier listed under a
  non-empty property name; and the nodes afterwards are the old ones, the bound path and
  those canonical forms. Entries under an empty property name give no edge and no node,
  and only canonical forms are given an index.
\<close>

theorem buildGraphStructures_edges:
  "\<exists>newNodes newEdges.
     fst (buildGraphStructures h path e (nodes, revNodes, edges)) = nodes @ newNodes \<and>
     snd (snd (buildGraphStructures h path e (nodes, revNodes, edges))) = edges @ newEdges \<and>
     set newEdges =
       {(nodeIndex (nodes @ newNodes) path, nodeIndex (nodes @ newNodes) (oidCanonicalPath h oid))
          | obj props name oids oid.
            (obj, props) \<in> set (getDeps e) \<and> (name, oids) \<in> set props \<and> name \<noteq> [] \<and>
            oid \<in> set oids} \<and>
     fst ` set (nodes @ newNodes) =
       fst ` set nodes \<union> {path} \<union>
       {oidCanonicalPath h oid | obj props name oids oid.
          (obj, props) \<in> set (getDeps e) \<and> (name, oids) \<in> set props \<and> name \<noteq> [] \<and>
          oid \<in> set oids}"
proof -
  from buildGraphStructures_char [of h path e nodes revNodes edges] obtain ext where
    n: "fst (buildGraphStructures h path e (nodes, revNodes, edges)) = nodes @ ext"
    and ed: "snd (snd (buildGraphStructures h path e (nodes, revNodes, edges)))
           = edges @ map (\<lambda>q. (nodeIndex (nodes @ ext) path, nodeIndex (nodes @ ext) q))
                         (dependencyPaths h e)"
    and k: "fst ` set (nodes @ ext) = fst ` set nodes \<union> {path} \<union> set (dependencyPaths h e)"
    by blast
  have "set (map (\<lambda>q. (nodeIndex (nodes @ ext) path, nodeIndex (nodes @ ext) q)) (dependencyPaths h e))
      = {(nodeIndex (nodes @ ext) path, nodeIndex (nodes @ ext) (oidCanonicalPath h oid))
          | obj props name oids oid.
            (obj, props) \<in> set (getDeps e) \<and> (name, oids) \<in> set props \<and> name \<noteq> [] \<and>
            oid \<in> set oids}"
    unfolding set_map set_dependencyPaths by blast
  with n ed k [unfolded set_dependencyPaths] show ?thesis by blast
qed

theorem buildGraphStructures_edges_witness:
  "buildGraphStructures plainHost ''A'' exprMixed ([], [], [])
     = ([(''A'', 0), (''other.value'', 1)], [(0, ''A'')], [(0, 1)]) \<and>
   (\<exists>newNodes newEdges.
      fst (buildGraphStructures plainHost ''A'' exprMixed ([], [], [])) = [] @ newNodes \<and>
      snd (snd (buildGraphStructures plainHost ''A'' exprMixed ([], [], []))) = [] @ newEdges \<and>
      set newEdges =
        {(nodeIndex ([] @ newNodes) ''A'', nodeIndex ([] @ newNodes) (oidCanonicalPath plainHost oid))
           | obj props name oids oid.
             (obj, props) \<in> set (getDeps exprMixed) \<and> (name, oids) \<in> set props \<and> name \<noteq> [] \<and>
             oid \<in> set oids} \<and>
      fst ` set ([] @ newNodes) =
        fst ` set ([] :: NodeMap) \<union> {''A''} \<union>
        {oidCanonicalPath plainHost oid | obj props name oids oid.
           (obj, props) \<in> set (getDeps exprMixed) \<and> (name, oids) \<in> set props \<and> name \<noteq> [] \<and>
           oid \<in> set oids})"
proof
  show "buildGraphStructures plainHost ''A'' exprMixed ([], [], [])
     = ([(''A'', 0), (''other.value'', 1)], [(0, ''A'')], [(0, 1)])"
    by (simp add: buildGraphStructures_def addDependencies_def addDependency_def nodeIndex_def
        exprMixed_def plainHost_def Let_def)
qed (rule buildGraphStructures_edges)

lemma dependencyGraph_Cons:
  "dependencyGraph h (x # al) =
     {(fst x, q) | q. q \<in> set (dependencyPaths h (expression (snd x)))} \<union> dependencyGraph h al"
  by (cases x) (auto simp: dependencyGraph_def)

lemma dependencyGraph_update_cong:
  "dependencyPaths h (expression a) = dependencyPaths h (expression b) \<Longrightarrow>
   dependencyGraph h (AList.update k a al) = dependencyGraph h (AList.update k b al)"
proof (induction al)
  case Nil
  then show ?case by (simp add: dependencyGraph_Cons)
next
  case (Cons x al)
  then show ?case by (cases x) (simp add: dependencyGraph_Cons)
qed

lemma dependencyGraph_delete: "dependencyGraph h (AList.delete k al) \<subseteq> dependencyGraph h al"
  by (auto simp: dependencyGraph_def AList.delete_eq)

lemma expressions_signallerEnter [simp]: "expressions (signallerEnter w) = expressions w"
  by (simp add: signallerEnter_def)

lemma expressions_signallerLeave [simp]: "expressions (signallerLeave w) = expressions w"
  by (simp add: signallerLeave_def)

lemma expressions_expressionChanged [simp]: "expressions (expressionChanged p w) = expressions w"
  by (simp add: expressionChanged_def)

lemma expressions_removeBackLinks [simp]: "expressions (removeBackLinks parent e w) = expressions w"
proof -
  have "\<And>w. expressions (fold (\<lambda>docObj w'. case docObj of None \<Rightarrow> w'
                        | Some d \<Rightarrow> if d \<noteq> parent then removeBackLink d parent w' else w') ds w)
        = expressions w" for ds
    by (induction ds) (auto simp: removeBackLink_def split: option.splits)
  then show ?thesis by (simp add: removeBackLinks_def)
qed

lemma expressions_addBackLinks [simp]: "expressions (addBackLinks parent e w) = expressions w"
proof -
  have "\<And>w. expressions (fold (\<lambda>docObj w'. case docObj of None \<Rightarrow> w'
                        | Some d \<Rightarrow> if d \<noteq> parent then addBackLink d parent w' else w') ds w)
        = expressions w" for ds
    by (induction ds) (auto simp: addBackLink_def split: option.splits)
  then show ?thesis by (simp add: addBackLinks_def)
qed

lemma setValue_Inr:
  assumes "setValue h w path expr cmt = (Inr (), w')"
  shows "w' = w \<or>
         (\<exists>usePath. canonicalPath h path = Inr usePath \<and> expr = None \<and>
            expressions w' = AList.delete usePath (expressions w)) \<or>
         (\<exists>usePath e. canonicalPath h path = Inr usePath \<and> expr = Some e \<and>
            validateExpression h w usePath e = Inr [] \<and>
            expressions w' = AList.update usePath (mkExpressionInfo e cmt) (expressions w))"
  using assms
  by (auto simp: setValue_def Let_def split: sum.splits option.splits prod.splits if_splits)

lemma validateExpression_ok:
  assumes "validateExpression h w p e = Inr []"
  shows "\<exists>u r. canonicalPath h p = Inr u \<and>
               buildGraph h (withClone (expressions w) u (copy h e)) [] (- 1) = Inr r"
proof -
  from assms obtain u where u: "canonicalPath h p = Inr u"
    by (auto simp: validateExpression_def split: sum.splits)
  have "(- 1 :: int) < 0" by simp
  from buildGraph_cases [OF this, of h "withClone (expressions w) u (copy h e)" "[]"]
  consider r where "buildGraph h (withClone (expressions w) u (copy h e)) [] (- 1) = Inr r"
    | s where "buildGraph h (withClone (expressions w) u (copy h e)) [] (- 1)
                 = Inl (RuntimeError (s @ '' reference creates a cyclic dependency.''))"
    by blast
  then show ?thesis
  proof cases
    case 1
    with u show ?thesis by blast
  next
    case 2
    with assms u have False
      by (auto simp: validateExpression_def Let_def split: option.splits if_splits)
    then show ?thesis ..
  qed
qed

lemma withClone_graph:
  "getDeps (copy h e) = getDeps e \<Longrightarrow>
   dependencyGraph h (withClone exprs u (copy h e))
     = dependencyGraph h (AList.update u (mkExpressionInfo e cmt) exprs)"
  unfolding withClone_def
  by (rule dependencyGraph_update_cong)
     (auto simp: dependencyPaths_def mkExpressionInfo_def split: option.splits)

lemma validateExpression_acyclic:
  assumes v: "validateExpression h w p e = Inr []" and c: "canonicalPath h p = Inr u"
    and cp: "getDeps (copy h e) = getDeps e"
  shows "acyclic (dependencyGraph h (AList.update u (mkExpressionInfo e cmt) (expressions w)))"
proof -
  from validateExpression_ok [OF v] c obtain r where
    "buildGraph h (withClone (expressions w) u (copy h e)) [] (- 1) = Inr r" by auto
  then have "acyclic (dependencyGraph h (filter (\<lambda>it. admitted h (- 1) (fst it))
                (withClone (expressions w) u (copy h e))))"
    by (cases r) (auto dest: buildGraph_acyclic)
  then show ?thesis
    using withClone_graph [OF cp, of "expressions w" u cmt] by (simp add: admitted_all)
qed

section \<open>Installed bindings stay acyclic; evaluation order\<close>

text \<open>
  C1. Under the contracts of the collaborators (a deep copy has the dependencies of the
  original; canonicalization is idempotent), \<^verbatim>\<open>setValue\<close> keeps the dependency graph of
  the installed bindings acyclic: if the graph is acyclic before a call that succeeds, it
  is acyclic after it; the graph of the empty store is acyclic. A call with a non-null
  expression, not the object already stored at the path, whose installation would make
  the graph cyclic raises an error and leaves the world as it was.
\<close>

theorem setValue_keeps_graph_acyclic:
  assumes cp: "\<forall>e. getDeps (copy h e) = getDeps e"
    and idem: "\<forall>p u. canonicalPath h p = Inr u \<longrightarrow> canonicalPath h u = Inr u"
    and ac: "acyclic (dependencyGraph h (expressions w))"
  shows "(\<forall>w'. setValue h w path expr cmt = (Inr (), w')
               \<longrightarrow> acyclic (dependencyGraph h (expressions w'))) \<and>
         (\<forall>e usePath.
            expr = Some e \<and> canonicalPath h path = Inr usePath \<and>
            (\<forall>info. map_of (expressions w) usePath = Some info
                     \<longrightarrow> ident (expression info) \<noteq> ident e) \<and>
            \<not> acyclic (dependencyGraph h
                         (AList.update usePath (mkExpressionInfo e cmt) (expressions w)))
            \<longrightarrow> (\<exists>err. setValue h w path expr cmt = (Inl err, w)))"
proof (intro conjI allI impI)
  fix w' assume ok: "setValue h w path expr cmt = (Inr (), w')"
  from setValue_Inr [OF ok] consider "w' = w"
    | usePath where "expressions w' = AList.delete usePath (expressions w)"
    | usePath e where "canonicalPath h path = Inr usePath"
        "validateExpression h w usePath e = Inr []"
        "expressions w' = AList.update usePath (mkExpressionInfo e cmt) (expressions w)"
    by blast
  then show "acyclic (dependencyGraph h (expressions w'))"
  proof cases
    case 1
    with ac show ?thesis by simp
  next
    case 2
    show ?thesis unfolding 2 by (rule acyclic_subset [OF ac dependencyGraph_delete])
  next
    case 3
    from idem 3(1) have "canonicalPath h usePath = Inr usePath" by blast
    from validateExpression_acyclic [OF 3(2) this] cp show ?thesis unfolding 3(3) by blast
  qed
next
  fix e usePath
  assume a: "expr = Some e \<and> canonicalPath h path = Inr usePath \<and>
            (\<forall>info. map_of (expressions w) usePath = Some info
                     \<longrightarrow> ident (expression info) \<noteq> ident e) \<and>
            \<not> acyclic (dependencyGraph h
                         (AList.update usePath (mkExpressionInfo e cmt) (expressions w)))"
  then have e: "expr = Some e" and c: "canonicalPath h path = Inr usePath"
    and ni: "\<And>info. map_of (expressions w) usePath = Some info \<Longrightarrow> ident (expression info) \<noteq> ident e"
    and cyc: "\<not> acyclic (dependencyGraph h
                         (AList.update usePath (mkExpressionInfo e cmt) (expressions w)))"
    by blast+
  from idem c have c': "canonicalPath h usePath = Inr usePath" by blast
  have nv: "validateExpression h w usePath e \<noteq> Inr []"
    using validateExpression_acyclic [OF _ c', of w e cmt] cp cyc by blast
  show "\<exists>err. setValue h w path expr cmt = (Inl err, w)"
  proof (cases "getProperty h usePath")
    case None
    then show ?thesis by (simp add: setValue_def c)
  next
    case (Some pp)
    obtain pr pt where pp: "pp = (pr, pt)" by (cases pp)
    show ?thesis
    proof (cases "propGetPathValue h pr usePath w")
      case (Inl err)
      then show ?thesis by (simp add: setValue_def c Some pp)
    next
      case (Inr v)
      have notid: "\<not> (case (map_of (expressions w) usePath, expr) of
                        (Some info, Some e) \<Rightarrow> ident e = ident (expression info)
                      | _ \<Rightarrow> False)"
        using ni by (auto simp: e split: option.splits)
      show ?thesis
      proof (cases "validateExpression h w usePath e")
        case (Inl err)
        with notid show ?thesis
          by (simp add: setValue_def c Some pp Inr Let_def e)
      next
        case (Inr error)
        with nv have "error \<noteq> []" by simp
        with notid Inr show ?thesis
          by (simp add: setValue_def c Some pp \<open>propGetPathValue h pr usePath w = Inr v\<close> Let_def e)
      qed
    qed
  qed
qed

lemma plainHost_idempotent:
  "\<forall>p u. canonicalPath plainHost p = Inr u \<longrightarrow> canonicalPath plainHost u = Inr u"
  by (auto simp: canonicalPath_def plainHost_def split: option.splits if_splits)

lemma graph_boundA: "dependencyGraph plainHost (expressions boundA) = {(''A'', ''B'')}"
  by (auto simp: dependencyGraph_def dependencyPaths_def boundA_def emptyWorld_def exprA_def
      plainHost_def)

lemma setValue_boundA_B:
  "fst (setValue plainHost boundA ''B'' (Some exprB) None) = Inr ()"
  by (simp add: setValue_def canonicalPath_def validateExpression_def withClone_def
      buildGraph_def buildGraphStructures_def addDependencies_def addDependency_def nodeIndex_def
      boundA_def emptyWorld_def exprA_def exprB_def plainHost_def ownerProp_def add_edge_def
      depth_first_search_def depth_first_visit_def dfs_init_def dfs_step_def out_edges_def
      cycle_detector_def Let_def)

theorem setValue_keeps_graph_acyclic_witness:
  "acyclic (dependencyGraph plainHost (expressions boundA)) \<and>
   fst (setValue plainHost boundA ''B'' (Some exprB) None) = Inr () \<and>
   acyclic (dependencyGraph plainHost
              (expressions (snd (setValue plainHost boundA ''B'' (Some exprB) None)))) \<and>
   canonicalPath plainHost ''B'' = Inr ''B'' \<and>
   map_of (expressions boundA) ''B'' = None \<and>
   \<not> acyclic (dependencyGraph plainHost
                (AList.update ''B'' (mkExpressionInfo exprBack None) (expressions boundA))) \<and>
   (\<exists>err. setValue plainHost boundA ''B'' (Some exprBack) None = (Inl err, boundA))"
proof -
  have cp: "\<forall>e. getDeps (copy plainHost e) = getDeps e"
    by (simp add: plainHost_def)
  have "acyclic ({} :: (ObjectIdentifier \<times> ObjectIdentifier) set)"
    by (rule wf_acyclic) simp
  then have ac: "acyclic (dependencyGraph plainHost (expressions boundA))"
    by (simp add: graph_boundA acyclic_insert)
  have ok: "setValue plainHost boundA ''B'' (Some exprB) None
              = (Inr (), snd (setValue plainHost boundA ''B'' (Some exprB) None))"
    using setValue_boundA_B by (metis prod.collapse)
  have c: "canonicalPath plainHost ''B'' = Inr ''B''"
    by (simp add: canonicalPath_def plainHost_def ownerProp_def)
  have m: "map_of (expressions boundA) ''B'' = None"
    by (simp add: boundA_def emptyWorld_def)
  have "(''A'', ''B'') \<in> dependencyGraph plainHost
                (AList.update ''B'' (mkExpressionInfo exprBack None) (expressions boundA))"
    and "(''B'', ''A'') \<in> dependencyGraph plainHost
                (AList.update ''B'' (mkExpressionInfo exprBack None) (expressions boundA))"
    by (auto simp: dependencyGraph_def dependencyPaths_def boundA_def emptyWorld_def exprA_def
        exprBack_def mkExpressionInfo_def plainHost_def)
  then have "(''A'', ''A'') \<in> (dependencyGraph plainHost
                (AList.update ''B'' (mkExpressionInfo exprBack None) (expressions boundA)))\<^sup>+"
    by (rule trancl_into_trancl [OF r_into_trancl])
  then have cyc: "\<not> acyclic (dependencyGraph plainHost
                (AList.update ''B'' (mkExpressionInfo exprBack None) (expressions boundA)))"
    by (auto simp: acyclic_def)
  from setValue_keeps_graph_acyclic [OF cp plainHost_idempotent ac, of "''B''" "Some exprB" None]
       setValue_keeps_graph_acyclic [OF cp plainHost_idempotent ac, of "''B''" "Some exprBack" None]
       ac ok c m cyc setValue_boundA_B
  show ?thesis by auto
qed

lemma executeLoop_trace:
  "executeLoop h d order w acc = (r, w', tr) \<Longrightarrow> \<exists>n. map fst tr = map fst acc @ take n order"
proof (induction order arbitrary: w acc)
  case Nil
  then show ?case by auto
next
  case (Cons p rest)
  have stop: "tr = acc \<Longrightarrow> ?case"
    by (auto intro: exI [of _ 0])
  show ?case
  proof (cases "getProperty h p")
    case None
    with Cons.prems show ?thesis by (intro stop) simp
  next
    case (Some pp)
    obtain pr pt where pp: "pp = (pr, pt)" by (cases pp)
    show ?thesis
    proof (cases "freecad_dynamic_cast (propContainer pr) \<noteq> Some d")
      case True
      with Cons.prems Some pp show ?thesis by (intro stop) simp
    next
      case False
      show ?thesis
      proof (cases "map_of (expressions w) p")
        case None
        with Cons.prems Some pp False show ?thesis by (intro stop) simp
      next
        case (Some info)
        obtain ev w1 where ev: "eval h (expression info) w = (ev, w1)" by (cases "eval h (expression info) w")
        show ?thesis
        proof (cases ev)
          case (Inl err)
          with Cons.prems \<open>getProperty h p = Some pp\<close> pp False Some ev show ?thesis
            by (intro stop) simp
        next
          case (Inr v)
          obtain sr w2 where sr: "propSetPathValue h pr p v w1 = (sr, w2)"
            by (cases "propSetPathValue h pr p v w1")
          show ?thesis
          proof (cases sr)
            case (Inl err)
            with Cons.prems \<open>getProperty h p = Some pp\<close> pp False Some ev Inr sr show ?thesis
              by (intro stop) simp
          next
            case (Inr u)
            with Cons.prems \<open>getProperty h p = Some pp\<close> pp False Some ev \<open>ev = Inr v\<close> sr
            have "executeLoop h d rest w2 (acc @ [(p, v)]) = (r, w', tr)" by simp
            from Cons.IH [OF this] obtain n where "map fst tr = map fst (acc @ [(p, v)]) @ take n rest"
              by blast
            then have "map fst tr = map fst acc @ take (Suc n) (p # rest)" by simp
            then show ?thesis by blast
          qed
        qed
      qed
    qed
  qed
qed

lemma map_filter_split:
  "List.map_filter r c = ys @ p # zs \<Longrightarrow>
   \<exists>xs u rest. c = xs @ u # rest \<and> r u = Some p \<and> List.map_filter r xs = ys"
proof (induction c arbitrary: ys)
  case Nil
  then show ?case by (simp add: List.map_filter_simps)
next
  case (Cons a c)
  show ?case
  proof (cases "r a")
    case None
    with Cons.prems have "List.map_filter r c = ys @ p # zs" by (simp add: List.map_filter_simps)
    from Cons.IH [OF this] obtain xs u rest where
      "c = xs @ u # rest" "r u = Some p" "List.map_filter r xs = ys" by blast
    with None have "a # c = (a # xs) @ u # rest \<and> r u = Some p \<and> List.map_filter r (a # xs) = ys"
      by (simp add: List.map_filter_simps)
    then show ?thesis by blast
  next
    case (Some b)
    with Cons.prems have eq: "b # List.map_filter r c = ys @ p # zs" by (simp add: List.map_filter_simps)
    show ?thesis
    proof (cases ys)
      case Nil
      with eq Some have "a # c = [] @ a # c \<and> r a = Some p \<and> List.map_filter r [] = ys"
        by (simp add: List.map_filter_simps)
      then show ?thesis by blast
    next
      case (Cons y ys')
      with eq have "List.map_filter r c = ys' @ p # zs" and y: "y = b" by simp_all
      from Cons.IH [OF this(1)] obtain xs u rest where
        "c = xs @ u # rest" "r u = Some p" "List.map_filter r xs = ys'" by blast
      with Some y Cons have "a # c = (a # xs) @ u # rest \<and> r u = Some p \<and> List.map_filter r (a # xs) = ys"
        by (simp add: List.map_filter_simps)
      then show ?thesis by blast
    qed
  qed
qed

lemma map_filter_mem: "x \<in> set xs \<Longrightarrow> r x = Some y \<Longrightarrow> y \<in> set (List.map_filter r xs)"
  by (force simp: List.map_filter_def)

lemma computeEvaluationOrder_deps_first:
  assumes ord: "computeEvaluationOrder h w output = Inr order"
    and split: "order = ys @ p # zs"
    and pin: "(p, info) \<in> set (expressions w)"
    and qdep: "q \<in> set (dependencyPaths h (expression info))"
    and qkey: "q \<in> fst ` set (expressions w)" and qadm: "admitted h output q"
  shows "q \<in> set ys"
proof -
  let ?ps = "filter (\<lambda>it. admitted h output (fst it)) (expressions w)"
  from ord obtain revNodes g where bg: "buildGraph h (expressions w) [] output = Inr (revNodes, g)"
    and ts: "topological_sort g = Inr (finish_order (depth_first_search g))"
    and o: "order = List.map_filter (map_of revNodes) (finish_order (depth_first_search g))"
    by (auto simp: computeEvaluationOrder_def topological_sort_def Let_def
             split: sum.splits prod.splits if_splits)
  from buildGraph_Inr [OF bg] obtain nodes where
    inv: "graphInv h ?ps (nodes, revNodes, edge_list g)"
    and nb: "back_edges (depth_first_search g) = []" by blast
  from inv have rev: "\<And>i x. (map_of revNodes i = Some x) = (x \<in> fst ` set ?ps \<and> map_of nodes x = Some i)"
    and keys: "\<And>it. it \<in> set ?ps \<Longrightarrow> map_of nodes (fst it) \<noteq> None"
    by (auto simp: graphInv_def)
  let ?c = "finish_order (depth_first_search g)"
  from map_filter_split [OF o [unfolded split, symmetric]] obtain xs u rest where
    c: "?c = xs @ u # rest" and ru: "map_of revNodes u = Some p"
    and xs: "List.map_filter (map_of revNodes) xs = ys" by blast
  from ru rev have pps: "p \<in> fst ` set ?ps" and pu: "map_of nodes p = Some u" by auto
  from pps have "admitted h output p" by auto
  with pin have pin': "(p, info) \<in> set ?ps" by simp
  from graphInv_edge [OF inv pin' qdep] pu
  have e: "(u, nodeIndex nodes q) \<in> set (edge_list g)" by (simp add: nodeIndex_def)
  from depth_first_search_deps_first [OF nb] c e
  have "nodeIndex nodes q \<in> set (take (length xs) ?c)"
    unfolding deps_first_def by (metis length_append_singleton less_add_Suc1 append_Cons length_Cons
      length_append nth_append_length add_Suc_right)
  with c have qx: "nodeIndex nodes q \<in> set xs" by simp
  from qkey qadm obtain iq where "(q, iq) \<in> set ?ps" by auto
  from keys [OF this] have "map_of nodes q = Some (nodeIndex nodes q)"
    by (simp add: nodeIndex_Some)
  with rev [of "nodeIndex nodes q" q] \<open>(q, iq) \<in> set ?ps\<close>
  have "map_of revNodes (nodeIndex nodes q) = Some q" by force
  from map_filter_mem [of "nodeIndex nodes q" xs "map_of revNodes" q, OF qx this] xs
  show ?thesis by simp
qed

text \<open>
  C3, as stated, fails for a call with an output filter. With \<open>P = 5\<close> and \<open>Q = P + 1\<close>
  bound, \<open>P\<close> flagged as output and \<open>Q\<close> not, \<^verbatim>\<open>execute(0)\<close> evaluates and writes \<open>Q\<close>
  (from the old value of \<open>P\<close>) and does not write the bound path \<open>P\<close> that \<open>Q\<close> depends on;
  \<open>P\<close> is written by the following \<^verbatim>\<open>execute(1)\<close>, after \<open>Q\<close>.
\<close>

theorem execute_filter_counterexample:
  "execute filterHost filterWorld 0
     = (Inr StdReturn, filterWorld\<lparr>propertyValues := [''Q'' \<mapsto> 1]\<rparr>, [(''Q'', 1)]) \<and>
   execute filterHost (filterWorld\<lparr>propertyValues := [''Q'' \<mapsto> 1]\<rparr>) 1
     = (Inr StdReturn, filterWorld\<lparr>propertyValues := [''Q'' \<mapsto> 1, ''P'' \<mapsto> 5]\<rparr>,
        [(''P'', 5)]) \<and>
   (''Q'', \<lparr>expression = exprQ, comment = []\<rparr>) \<in> set (expressions filterWorld) \<and>
   ''P'' \<in> set (dependencyPaths filterHost exprQ) \<and>
   ''P'' \<in> fst ` set (expressions filterWorld)"
proof -
  have c: "freecad_dynamic_cast (getContainer filterHost) = Some 1"
    by (simp add: filterHost_def plainHost_def)
  have r: "\<not> running filterWorld"
    by (simp add: filterWorld_def emptyWorld_def)
  have o0: "computeEvaluationOrder filterHost (filterWorld\<lparr>running := True\<rparr>) 0 = Inr [''Q'']"
    by (simp add: computeEvaluationOrder_def buildGraph_def buildGraphStructures_def
        addDependencies_def addDependency_def nodeIndex_def filterWorld_def emptyWorld_def
        exprP_def exprQ_def filterHost_def plainHost_def outputProp_def ownerProp_def
        is_output_def add_edge_def depth_first_search_def depth_first_visit_def dfs_init_def
        dfs_step_def out_edges_def cycle_detector_def topological_sort_def List.map_filter_def
        Let_def)
  have o1: "computeEvaluationOrder filterHost
              (filterWorld\<lparr>propertyValues := [''Q'' \<mapsto> 1], running := True\<rparr>) 1 = Inr [''P'']"
    by (simp add: computeEvaluationOrder_def buildGraph_def buildGraphStructures_def
        addDependencies_def addDependency_def nodeIndex_def filterWorld_def emptyWorld_def
        exprP_def exprQ_def filterHost_def plainHost_def outputProp_def ownerProp_def
        is_output_def add_edge_def depth_first_search_def depth_first_visit_def dfs_init_def
        dfs_step_def out_edges_def cycle_detector_def topological_sort_def List.map_filter_def
        Let_def)
  have e0: "execute filterHost filterWorld 0
     = (Inr StdReturn, filterWorld\<lparr>propertyValues := [''Q'' \<mapsto> 1]\<rparr>, [(''Q'', 1)])"
    by (simp add: execute_def c r o0 Let_def)
       (simp add: filterHost_def plainHost_def outputProp_def ownerProp_def filterWorld_def
        emptyWorld_def exprQ_def valueOf_def)
  have e1: "execute filterHost (filterWorld\<lparr>propertyValues := [''Q'' \<mapsto> 1]\<rparr>) 1
     = (Inr StdReturn, filterWorld\<lparr>propertyValues := [''Q'' \<mapsto> 1, ''P'' \<mapsto> 5]\<rparr>,
        [(''P'', 5)])"
    by (simp add: execute_def c r o1 Let_def)
       (simp add: filterHost_def plainHost_def outputProp_def ownerProp_def filterWorld_def
        emptyWorld_def exprP_def valueOf_def)
  have "''P'' \<in> set (dependencyPaths filterHost exprQ)"
    by (simp add: dependencyPaths_def exprQ_def filterHost_def plainHost_def)
  with e0 e1 show ?thesis
    by (simp add: filterWorld_def emptyWorld_def)
qed

text \<open>
  C3, amended. Whatever the filter, the store and the callbacks: when \<^verbatim>\<open>execute\<close> writes
  a path \<open>p\<close>, every path that the expression bound to \<open>p\<close> depends on, that is itself
  bound and that the output filter admits (every bound path, for a negative filter) has
  been written before in the same call. In particular, with \<open>A = B + 1\<close>, \<open>B = C * 2\<close> and
  \<open>C = 3\<close>, the unfiltered call writes \<open>B = 6\<close> and then \<open>A = 7\<close>.
\<close>

theorem execute_writes_dependencies_first:
  assumes ex: "execute h w output = (res, w', written)"
    and split: "written = ys @ (p, v) # zs"
    and pin: "(p, info) \<in> set (expressions w)"
    and qdep: "q \<in> set (dependencyPaths h (expression info))"
    and qkey: "q \<in> fst ` set (expressions w)" and qadm: "admitted h output q"
  shows "q \<in> fst ` set ys"
proof -
  from ex split obtain d order r1 w1 where
    ord: "computeEvaluationOrder h (w\<lparr>running := True\<rparr>) output = Inr order"
    and loop: "executeLoop h d order (w\<lparr>running := True\<rparr>) [] = (r1, w1, written)"
    by (auto simp: execute_def Let_def split: option.splits if_splits sum.splits)
       (metis prod.collapse)
  from executeLoop_trace [OF loop] obtain n where n: "map fst written = take n order" by auto
  have "order = take n order @ drop n order" by simp
  then have "order = map fst ys @ p # (map fst zs @ drop n order)"
    unfolding n [symmetric] split by simp
  from computeEvaluationOrder_deps_first [OF ord this, of info q] pin qdep qkey qadm
  show ?thesis by simp
qed

theorem execute_writes_dependencies_first_witness:
  "snd (snd (execute chainHost chainWorld (- 1))) = [(''B'', 6)] @ (''A'', 7) # [] \<and>
   (''A'', \<lparr>expression = exprA, comment = []\<rparr>) \<in> set (expressions chainWorld) \<and>
   ''B'' \<in> set (dependencyPaths chainHost (expression \<lparr>expression = exprA, comment = []\<rparr>)) \<and>
   ''B'' \<in> fst ` set (expressions chainWorld) \<and>
   admitted chainHost (- 1) ''B'' \<and>
   ''B'' \<in> fst ` set [(''B'', 6 :: any)]"
proof -
  have ex: "execute chainHost chainWorld (- 1)
      = (fst (execute chainHost chainWorld (- 1)), fst (snd (execute chainHost chainWorld (- 1))),
         snd (snd (execute chainHost chainWorld (- 1))))"
    by simp
  have split: "snd (snd (execute chainHost chainWorld (- 1))) = [(''B'', 6)] @ (''A'', 7) # []"
    by (simp add: writes_chainHost)
  have pin: "(''A'', \<lparr>expression = exprA, comment = []\<rparr>) \<in> set (expressions chainWorld)"
    by (simp add: chainWorld_def emptyWorld_def)
  have qdep: "''B'' \<in> set (dependencyPaths chainHost (expression \<lparr>expression = exprA, comment = []\<rparr>))"
    by (simp add: dependencyPaths_def exprA_def chainHost_def plainHost_def)
  have qkey: "''B'' \<in> fst ` set (expressions chainWorld)"
    by (simp add: chainWorld_def emptyWorld_def)
  have qadm: "admitted chainHost (- 1) ''B''"
    by (simp add: admitted_def)
  from execute_writes_dependencies_first [OF ex split pin qdep qkey qadm] split pin qdep qkey qadm
  show ?thesis by simp
qed

section \<open>Restoring\<close>

lemma restoreLoop_frame:
  "snd (restoreLoop h n els w)
     = w\<lparr>restoredExpressions := restoredExpressions (snd (restoreLoop h n els w))\<rparr>"
proof (induction h n els w rule: restoreLoop.induct)
  case (1 h els w)
  show ?case by simp
next
  case (2 h n w)
  show ?case by simp
next
  case (3 h n el els w)
  show ?case
  proof (cases "parseObjectIdentifier h (freecad_dynamic_cast (getContainer h)) (pathAttr el)")
    case (Inl e)
    then show ?thesis by simp
  next
    case (Inr path)
    note p = this
    show ?thesis
    proof (cases "parseExpression h (freecad_dynamic_cast (getContainer h)) (expressionAttr el)")
      case (Inl e)
      with p show ?thesis by simp
    next
      case (Inr expr)
      from "3.IH" [OF refl p Inr] p Inr show ?thesis
        by (simp add: Let_def)
    qed
  qed
qed

lemma update_fresh: "k \<notin> fst ` set al \<Longrightarrow> AList.update k v al = al @ [(k, v)]"
  by (induction al) auto

lemma fold_update_fresh:
  "distinct (map fst xs) \<Longrightarrow> fst ` set xs \<inter> fst ` set acc = {} \<Longrightarrow>
   fold (\<lambda>x. AList.update (fst x) (snd x)) xs acc = acc @ xs"
proof (induction xs arbitrary: acc)
  case Nil
  show ?case by simp
next
  case (Cons x xs)
  from Cons.prems have f: "fst x \<notin> fst ` set acc" by auto
  from Cons.prems have "distinct (map fst xs)" "fst ` set xs \<inter> fst ` set (acc @ [x]) = {}"
    by auto
  from Cons.IH [OF this] show ?case by (simp add: update_fresh [OF f])
qed

lemma restoreLoop_prefix:
  "map (\<lambda>el. parseObjectIdentifier h (freecad_dynamic_cast (getContainer h)) (pathAttr el)) els
     = map Inr paths \<Longrightarrow>
   map (\<lambda>el. parseExpression h (freecad_dynamic_cast (getContainer h)) (expressionAttr el)) els
     = map Inr exprs \<Longrightarrow>
   restoreLoop h (length els) (els @ rest) w =
     (Inr (), w\<lparr>restoredExpressions :=
                  fold (\<lambda>x. AList.update (fst x) (snd x))
                       (zip paths (map2 mkExpressionInfo exprs (map commentAttr els)))
                       (restoredExpressions w)\<rparr>)"
proof (induction els arbitrary: paths exprs w)
  case Nil
  then show ?case by simp
next
  case (Cons el els)
  from Cons.prems obtain p ps where paths: "paths = p # ps"
    and p: "parseObjectIdentifier h (freecad_dynamic_cast (getContainer h)) (pathAttr el) = Inr p"
    and ps: "map (\<lambda>el. parseObjectIdentifier h (freecad_dynamic_cast (getContainer h)) (pathAttr el)) els
              = map Inr ps"
    by (cases paths) auto
  from Cons.prems obtain e es where exprs: "exprs = e # es"
    and e: "parseExpression h (freecad_dynamic_cast (getContainer h)) (expressionAttr el) = Inr e"
    and es: "map (\<lambda>el. parseExpression h (freecad_dynamic_cast (getContainer h)) (expressionAttr el)) els
              = map Inr es"
    by (cases exprs) auto
  show ?case
    by (simp add: p e paths exprs Let_def Cons.IH [OF ps es])
qed

lemma setValue_Some_Inr:
  assumes "setValue h w path (Some e) cmt = (Inr (), w')"
  shows "\<exists>usePath. canonicalPath h path = Inr usePath \<and> usePath \<in> fst ` set (expressions w') \<and>
                   fst ` set (expressions w) \<subseteq> fst ` set (expressions w')"
proof -
  from assms obtain usePath where c: "canonicalPath h path = Inr usePath"
    by (auto simp: setValue_def split: sum.splits)
  show ?thesis
  proof (cases "\<exists>info. map_of (expressions w) usePath = Some info \<and> ident e = ident (expression info)")
    case True
    then obtain info where i: "map_of (expressions w) usePath = Some info"
      "ident e = ident (expression info)" by blast
    from setValue_same_object [OF c i, of cmt] assms have "w' = w" by simp
    moreover from i(1) have "usePath \<in> fst ` set (expressions w)"
      by (metis map_of_eq_None_iff option.distinct(1))
    ultimately show ?thesis using c by blast
  next
    case False
    with c assms
    have "expressions w' = AList.update usePath (mkExpressionInfo e cmt) (expressions w)"
      by (auto simp: setValue_def Let_def split: sum.splits option.splits prod.splits if_splits)
    then show ?thesis using c by (auto simp: dom_update)
  qed
qed

lemma setValueRestored_installed:
  "setValueRestored h its w = (Inr (), w') \<Longrightarrow>
   fst ` set (expressions w) \<subseteq> fst ` set (expressions w') \<and>
   (\<forall>it \<in> set its. \<exists>usePath. canonicalPath h (fst it) = Inr usePath \<and>
                               usePath \<in> fst ` set (expressions w'))"
proof (induction its arbitrary: w)
  case Nil
  then show ?case by simp
next
  case (Cons it rest)
  let ?c = "if comment (snd it) \<noteq> [] then Some (comment (snd it)) else None"
  from Cons.prems obtain w1 where
    sv: "setValue h w (fst it) (Some (expression (snd it))) ?c = (Inr (), w1)"
    and r: "setValueRestored h rest w1 = (Inr (), w')"
    by (auto split: prod.splits sum.splits)
  from setValue_Some_Inr [OF sv] obtain u where u: "canonicalPath h (fst it) = Inr u"
    "u \<in> fst ` set (expressions w1)" "fst ` set (expressions w) \<subseteq> fst ` set (expressions w1)"
    by blast
  from Cons.IH [OF r] have mono: "fst ` set (expressions w1) \<subseteq> fst ` set (expressions w')"
    and inst: "\<forall>it \<in> set rest. \<exists>usePath. canonicalPath h (fst it) = Inr usePath \<and>
                               usePath \<in> fst ` set (expressions w')" by blast+
  from u mono inst show ?case by auto
qed

lemma onDocumentRestored_installed:
  assumes "onDocumentRestored h w = (Inr (), w')"
  shows "\<forall>it \<in> set (restoredExpressions w). \<exists>usePath. canonicalPath h (fst it) = Inr usePath \<and>
                               usePath \<in> fst ` set (expressions w')"
proof -
  have re: "restoredExpressions (signallerEnter w) = restoredExpressions w"
    by (simp add: signallerEnter_def)
  obtain r w1 where s: "setValueRestored h (restoredExpressions w) (signallerEnter w) = (r, w1)"
    by (cases "setValueRestored h (restoredExpressions w) (signallerEnter w)")
  with assms have "r = Inr ()" "w' = signallerLeave w1"
    by (auto simp: onDocumentRestored_def Let_def re)
  with setValueRestored_installed [of h "restoredExpressions w" "signallerEnter w" w1] s
  show ?thesis by simp
qed

lemma fold_addBackLink:
  "fold (\<lambda>docObj w'. case docObj of
                        None \<Rightarrow> w'
                      | Some d \<Rightarrow> if d \<noteq> parent then addBackLink d parent w' else w') ds w
     = w\<lparr>backLinks := backLinks w @
            concat (map (\<lambda>docObj. case docObj of
                              None \<Rightarrow> []
                            | Some d \<Rightarrow> if d \<noteq> parent then [(d, parent)] else []) ds)\<rparr>"
  by (induction ds arbitrary: w) (simp_all add: addBackLink_def split: option.splits)

lemma addBackLinks_backLinksOf:
  "addBackLinks parent e w = w\<lparr>backLinks := backLinks w @ backLinksOf parent e\<rparr>"
  by (simp add: addBackLinks_def backLinksOf_def fold_addBackLink)

lemma installed_Nil: "installed parent w [] = w"
  by (simp add: installed_def)

lemma installed_Cons: "installed parent (installed parent w [b]) bs = installed parent w (b # bs)"
  by (simp add: installed_def)

lemma setValue_unbound:
  assumes c: "canonicalPath h p = Inr u"
    and nb: "u \<notin> fst ` set (expressions w)"
    and own: "freecad_dynamic_cast (getContainer h) = Some parent"
    and sc: "0 < signalCounter w"
  shows "installable h w u e \<Longrightarrow>
           setValue h w p (Some e) cmt = (Inr (), installed parent w [(u, mkExpressionInfo e cmt)])"
    and "\<not> installable h w u e \<Longrightarrow> \<exists>err. setValue h w p (Some e) cmt = (Inl err, w)"
proof -
  from nb have m: "map_of (expressions w) u = None"
    by (simp add: map_of_eq_None_iff)
  from sc obtain k where k: "signalCounter w = Suc k" by (cases "signalCounter w") auto
  show "setValue h w p (Some e) cmt = (Inr (), installed parent w [(u, mkExpressionInfo e cmt)])"
    if "installable h w u e"
  proof -
    from that obtain pr pt v where g: "getProperty h u = Some (pr, pt)"
      and r: "propGetPathValue h pr u w = Inr v"
      and v: "validateExpression h w u e = Inr []"
      by (auto simp: installable_def split: option.splits sum.splits)
    show ?thesis
      by (simp add: setValue_def c g r m v own Let_def update_fresh [OF nb]
          addBackLinks_backLinksOf signallerEnter_def signallerLeave_def expressionChanged_def
          installed_def k)
         (rule world.equality; simp add: k mkExpressionInfo_def)
  qed
  show "\<exists>err. setValue h w p (Some e) cmt = (Inl err, w)" if "\<not> installable h w u e"
    using that
    by (auto simp: installable_def setValue_def c m Let_def split: option.splits sum.splits)
qed

lemma mkExpressionInfo_comment:
  "mkExpressionInfo (expression info) (if comment info \<noteq> [] then Some (comment info) else None)
     = info"
  by (simp add: mkExpressionInfo_def)

lemma setValueRestored_closed:
  assumes own: "freecad_dynamic_cast (getContainer h) = Some parent"
  shows "map (\<lambda>b. canonicalPath h (fst b)) bs = map Inr us \<Longrightarrow> distinct us \<Longrightarrow>
     set us \<inter> fst ` set (expressions w) = {} \<Longrightarrow> 0 < signalCounter w \<Longrightarrow>
     (if \<forall>i<length bs. installable h (installed parent w (take i (zip us (map snd bs))))
                              (us ! i) (expression (snd (bs ! i)))
      then setValueRestored h bs w = (Inr (), installed parent w (zip us (map snd bs)))
      else \<exists>err w'. setValueRestored h bs w = (Inl err, w'))"
proof (induction bs arbitrary: us w)
  case Nil
  then show ?case by (simp add: installed_Nil)
next
  case (Cons b bs)
  from Cons.prems(1) obtain u us' where us: "us = u # us'"
    and c: "canonicalPath h (fst b) = Inr u"
    and cs: "map (\<lambda>b. canonicalPath h (fst b)) bs = map Inr us'"
    by (cases us) auto
  from Cons.prems(3) us have nb: "u \<notin> fst ` set (expressions w)" by auto
  let ?cmt = "if comment (snd b) \<noteq> [] then Some (comment (snd b)) else None"
  let ?w1 = "installed parent w [(u, snd b)]"
  let ?Q = "\<lambda>i. installable h (installed parent w (take i (zip us (map snd (b # bs)))))
                              (us ! i) (expression (snd ((b # bs) ! i)))"
  have Q0: "?Q 0 = installable h w u (expression (snd b))"
    by (simp add: us installed_Nil)
  have QS: "?Q (Suc i) = installable h (installed parent ?w1 (take i (zip us' (map snd bs))))
                              (us' ! i) (expression (snd (bs ! i)))" for i
    by (simp add: us installed_Cons)
  have all: "(\<forall>i<length (b # bs). ?Q i) =
             (installable h w u (expression (snd b)) \<and>
              (\<forall>i<length bs. installable h (installed parent ?w1 (take i (zip us' (map snd bs))))
                              (us' ! i) (expression (snd (bs ! i)))))"
    unfolding Q0 [symmetric] QS [symmetric] by (simp add: All_less_Suc2)
  show ?case
  proof (cases "installable h w u (expression (snd b))")
    case True
    from setValue_unbound(1) [OF c nb own Cons.prems(4) True, of ?cmt]
    have sv: "setValue h w (fst b) (Some (expression (snd b))) ?cmt = (Inr (), ?w1)"
      by (simp only: mkExpressionInfo_comment)
    have d: "distinct us'" using Cons.prems(2) us by simp
    have dj: "set us' \<inter> fst ` set (expressions ?w1) = {}"
      using Cons.prems(2,3) us by (auto simp: installed_def)
    have sc: "0 < signalCounter ?w1" using Cons.prems(4) by (simp add: installed_def)
    have step: "setValueRestored h (b # bs) w = setValueRestored h bs ?w1"
      by (simp add: sv)
    have z: "installed parent ?w1 (zip us' (map snd bs))
               = installed parent w (zip us (map snd (b # bs)))"
      by (simp add: us installed_Cons)
    from Cons.IH [OF cs d dj sc] True show ?thesis
      unfolding all step z by simp
  next
    case False
    from setValue_unbound(2) [OF c nb own Cons.prems(4) False, of ?cmt]
    obtain err where "setValue h w (fst b) (Some (expression (snd b))) ?cmt = (Inl err, w)"
      by blast
    then have "setValueRestored h (b # bs) w = (Inl err, w)" by simp
    with False show ?thesis unfolding all by simp
  qed
qed

lemma onDocumentRestored_closed:
  assumes own: "freecad_dynamic_cast (getContainer h) = Some parent"
    and c: "map (\<lambda>b. canonicalPath h (fst b)) (restoredExpressions w) = map Inr us"
    and d: "distinct us"
    and dj: "set us \<inter> fst ` set (expressions w) = {}"
  shows "(fst (onDocumentRestored h w) = Inr ()) =
           (\<forall>i<length (restoredExpressions w).
               installable h (installed parent (signallerEnter w)
                                (take i (zip us (map snd (restoredExpressions w)))))
                           (us ! i) (expression (snd (restoredExpressions w ! i))))"
    and "fst (onDocumentRestored h w) = Inr () \<Longrightarrow>
           snd (onDocumentRestored h w)
             = signallerLeave (installed parent (signallerEnter w)
                                 (zip us (map snd (restoredExpressions w))))"
proof -
  have re: "restoredExpressions (signallerEnter w) = restoredExpressions w"
    and ex: "expressions (signallerEnter w) = expressions w"
    and sc: "0 < signalCounter (signallerEnter w)"
    by (simp_all add: signallerEnter_def)
  note cl = setValueRestored_closed [OF own c d, of "signallerEnter w", unfolded ex, OF dj sc]
  have o: "onDocumentRestored h w
             = (fst (setValueRestored h (restoredExpressions w) (signallerEnter w)),
                signallerLeave (snd (setValueRestored h (restoredExpressions w) (signallerEnter w))))"
    by (simp add: onDocumentRestored_def Let_def re)
  show "(fst (onDocumentRestored h w) = Inr ()) =
           (\<forall>i<length (restoredExpressions w).
               installable h (installed parent (signallerEnter w)
                                (take i (zip us (map snd (restoredExpressions w)))))
                           (us ! i) (expression (snd (restoredExpressions w ! i))))"
    using cl unfolding o by (auto split: if_splits)
  show "snd (onDocumentRestored h w)
             = signallerLeave (installed parent (signallerEnter w)
                                 (zip us (map snd (restoredExpressions w))))"
    if "fst (onDocumentRestored h w) = Inr ()"
    using cl that unfolding o by (auto split: if_splits)
qed

lemma container_restoreHost: "freecad_dynamic_cast (getContainer restoreHost) = Some 1"
  by (simp add: restoreHost_def plainHost_def)

lemma canonical_restoreHost:
  "map (canonicalPath restoreHost) [''A'', ''B''] = map Inr [''A'', ''B'']"
  by (simp add: canonicalPath_def restoreHost_def plainHost_def ownerProp_def)

lemma installable_A:
  "installable restoreHost (installed 1 (signallerEnter (emptyWorld\<lparr>restoredExpressions := rs\<rparr>)) [])
     ''A'' exprX"
  by (simp add: installable_def installed_def signallerEnter_def validateExpression_def
      canonicalPath_def withClone_def buildGraph_def buildGraphStructures_def
      addDependencies_def addDependency_def nodeIndex_def emptyWorld_def restoreHost_def
      plainHost_def ownerProp_def otherProp_def exprX_def add_edge_def depth_first_search_def
      depth_first_visit_def dfs_init_def dfs_step_def out_edges_def cycle_detector_def Let_def)

lemma installable_B:
  "installable restoreHost
     (installed 1 (signallerEnter (emptyWorld\<lparr>restoredExpressions := rs\<rparr>))
        [(''A'', \<lparr>expression = exprX, comment = ''note''\<rparr>)])
     ''B'' exprB22"
  by (simp add: installable_def installed_def signallerEnter_def validateExpression_def
      canonicalPath_def withClone_def buildGraph_def buildGraphStructures_def
      addDependencies_def addDependency_def nodeIndex_def emptyWorld_def restoreHost_def
      plainHost_def ownerProp_def otherProp_def exprX_def exprB22_def add_edge_def
      depth_first_search_def depth_first_visit_def dfs_init_def dfs_step_def out_edges_def
      cycle_detector_def Let_def)

text \<open>
  C9. \<^verbatim>\<open>Restore\<close> changes nothing but the staging store, whatever it reads. For a
  serialized engine with count \<open>N\<close> that holds at least \<open>N\<close> \<^verbatim>\<open>Expression\<close> elements, the
  first \<open>N\<close> of which parse to distinct paths, it returns normally with exactly the \<open>N\<close>
  parsed (path, expression, comment) entries staged, in order, and the live store as it
  was. The staged bindings reach the live store only through the \<^verbatim>\<open>setValue\<close> calls of
  \<^verbatim>\<open>onDocumentRestored\<close>: when that returns normally, the canonical form of every staged
  path is bound in the live store. When the engine is owned by a document object and the
  canonical forms of the staged paths are distinct and not yet bound,
  \<^verbatim>\<open>onDocumentRestored\<close> returns normally exactly when every staged expression, in its
  turn and in the world that holds the bindings installed before it, has a readable
  property and passes \<^verbatim>\<open>validateExpression\<close>; the world it then returns has every
  staged expression with its comment appended to the live store at the canonical form of
  its path, its back-links registered and its change signalled, inside one change scope,
  and is otherwise the world after \<^verbatim>\<open>Restore\<close>.
\<close>

theorem Restore_stages_then_drains:
  "snd (Restore h w reader)
     = w\<lparr>restoredExpressions := restoredExpressions (snd (Restore h w reader))\<rparr> \<and>
   (nat (countAttr reader) \<le> length (elements reader) \<and>
    map (\<lambda>el. parseObjectIdentifier h (freecad_dynamic_cast (getContainer h)) (pathAttr el))
        (take (nat (countAttr reader)) (elements reader)) = map Inr paths \<and>
    map (\<lambda>el. parseExpression h (freecad_dynamic_cast (getContainer h)) (expressionAttr el))
        (take (nat (countAttr reader)) (elements reader)) = map Inr exprs \<and>
    infos = map2 mkExpressionInfo exprs
              (map commentAttr (take (nat (countAttr reader)) (elements reader))) \<and>
    distinct paths \<longrightarrow>
      Restore h w reader = (Inr (), w\<lparr>restoredExpressions := zip paths infos\<rparr>) \<and>
      length (restoredExpressions (snd (Restore h w reader))) = nat (countAttr reader) \<and>
      expressions (snd (Restore h w reader)) = expressions w \<and>
      (\<forall>w'. onDocumentRestored h (snd (Restore h w reader)) = (Inr (), w') \<longrightarrow>
            (\<forall>p \<in> set paths. \<exists>usePath. canonicalPath h p = Inr usePath \<and>
                                       usePath \<in> fst ` set (expressions w'))) \<and>
      (freecad_dynamic_cast (getContainer h) = Some parent \<and>
       map (canonicalPath h) paths = map Inr us \<and> distinct us \<and>
       set us \<inter> fst ` set (expressions w) = {} \<longrightarrow>
         (fst (onDocumentRestored h (snd (Restore h w reader))) = Inr ()) =
           (\<forall>i<length us.
               installable h (installed parent (signallerEnter (snd (Restore h w reader)))
                                (take i (zip us infos)))
                           (us ! i) (exprs ! i)) \<and>
         (fst (onDocumentRestored h (snd (Restore h w reader))) = Inr () \<longrightarrow>
            snd (onDocumentRestored h (snd (Restore h w reader)))
              = signallerLeave (installed parent (signallerEnter (snd (Restore h w reader)))
                                  (zip us infos)))))"
proof (intro conjI impI)
  show frame: "snd (Restore h w reader)
     = w\<lparr>restoredExpressions := restoredExpressions (snd (Restore h w reader))\<rparr>"
    using restoreLoop_frame [of h "nat (countAttr reader)" "elements reader" "w\<lparr>restoredExpressions := []\<rparr>"]
    by (simp add: Restore_def)
next
  let ?n = "nat (countAttr reader)"
  let ?els = "take ?n (elements reader)"
  assume a: "?n \<le> length (elements reader) \<and>
    map (\<lambda>el. parseObjectIdentifier h (freecad_dynamic_cast (getContainer h)) (pathAttr el))
        ?els = map Inr paths \<and>
    map (\<lambda>el. parseExpression h (freecad_dynamic_cast (getContainer h)) (expressionAttr el))
        ?els = map Inr exprs \<and>
    infos = map2 mkExpressionInfo exprs (map commentAttr ?els) \<and>
    distinct paths"
  then have len: "length ?els = ?n" by simp
  from a have lp: "length paths = ?n" and le: "length exprs = ?n"
    using len by (metis length_map)+
  from a le len have li: "length infos = ?n" by simp
  let ?z = "zip paths infos"
  have mf: "map fst ?z = paths" and ms: "map snd ?z = infos"
    using lp li by simp_all
  have dz: "distinct (map fst ?z)" using a mf by simp
  from a have pp: "map (\<lambda>el. parseObjectIdentifier h (freecad_dynamic_cast (getContainer h)) (pathAttr el))
        ?els = map Inr paths"
    and pe: "map (\<lambda>el. parseExpression h (freecad_dynamic_cast (getContainer h)) (expressionAttr el))
        ?els = map Inr exprs"
    and inf: "infos = map2 mkExpressionInfo exprs (map commentAttr ?els)"
    by simp_all
  note rp = restoreLoop_prefix [OF pp pe, of "drop ?n (elements reader)"
              "w\<lparr>restoredExpressions := []\<rparr>", unfolded len append_take_drop_id, folded inf]
  have R0: "Restore h w reader =
     (Inr (), w\<lparr>restoredExpressions := fold (\<lambda>x. AList.update (fst x) (snd x)) ?z []\<rparr>)"
    unfolding Restore_def using rp by simp
  have st: "fold (\<lambda>x. AList.update (fst x) (snd x)) ?z [] = ?z"
    using fold_update_fresh [OF dz, of "[]"] by simp
  show R: "Restore h w reader = (Inr (), w\<lparr>restoredExpressions := ?z\<rparr>)"
    using R0 st by simp
  have re: "restoredExpressions (snd (Restore h w reader)) = ?z" by (simp add: R)
  show "length (restoredExpressions (snd (Restore h w reader))) = ?n"
    unfolding re using lp li by simp
  show ex: "expressions (snd (Restore h w reader)) = expressions w" by (simp add: R)
  show "\<forall>w'. onDocumentRestored h (snd (Restore h w reader)) = (Inr (), w') \<longrightarrow>
            (\<forall>p \<in> set paths. \<exists>usePath. canonicalPath h p = Inr usePath \<and>
                                       usePath \<in> fst ` set (expressions w'))"
  proof (intro allI impI ballI)
    fix w' p assume d: "onDocumentRestored h (snd (Restore h w reader)) = (Inr (), w')"
      and p: "p \<in> set paths"
    from p mf have "p \<in> fst ` set ?z" by (metis set_map)
    then obtain it where "it \<in> set (restoredExpressions (snd (Restore h w reader)))" "fst it = p"
      unfolding re by auto
    with onDocumentRestored_installed [OF d]
    show "\<exists>usePath. canonicalPath h p = Inr usePath \<and> usePath \<in> fst ` set (expressions w')"
      by auto
  qed
  assume b: "freecad_dynamic_cast (getContainer h) = Some parent \<and>
       map (canonicalPath h) paths = map Inr us \<and> distinct us \<and>
       set us \<inter> fst ` set (expressions w) = {}"
  then have own: "freecad_dynamic_cast (getContainer h) = Some parent"
    and d: "distinct us" by simp_all
  from b have cu: "map (canonicalPath h) paths = map Inr us" by simp
  have lu: "length us = ?n"
    using arg_cong [OF cu, of length] lp by simp
  have "map (\<lambda>b. canonicalPath h (fst b)) ?z = map (canonicalPath h) (map fst ?z)"
    by (simp add: comp_def)
  also have "\<dots> = map Inr us" unfolding mf by (rule cu)
  finally have c: "map (\<lambda>b. canonicalPath h (fst b)) (restoredExpressions (snd (Restore h w reader)))
             = map Inr us"
    unfolding re .
  have dj: "set us \<inter> fst ` set (expressions (snd (Restore h w reader))) = {}"
    unfolding ex using b by simp
  have lz: "length ?z = length us" using lu lp li by simp
  have nth: "expression (snd (?z ! i)) = exprs ! i" if "i < length us" for i
  proof -
    from that lu lp li le len have i: "i < length paths" "i < length infos" "i < length exprs"
      "i < length ?els" by simp_all
    have "snd (?z ! i) = infos ! i" using i by simp
    also have "\<dots> = mkExpressionInfo (exprs ! i) (commentAttr (?els ! i))"
      unfolding inf using i by simp
    finally show ?thesis by (simp add: mkExpressionInfo_def)
  qed
  note cl = onDocumentRestored_closed [OF own c d dj, unfolded re ms]
  have "(\<forall>i<length ?z. installable h (installed parent (signallerEnter (snd (Restore h w reader)))
                                (take i (zip us infos))) (us ! i) (expression (snd (?z ! i))))
        = (\<forall>i<length us. installable h (installed parent (signallerEnter (snd (Restore h w reader)))
                                (take i (zip us infos))) (us ! i) (exprs ! i))"
    unfolding lz by (auto simp: nth)
  with cl(1) show "(fst (onDocumentRestored h (snd (Restore h w reader))) = Inr ()) =
           (\<forall>i<length us.
               installable h (installed parent (signallerEnter (snd (Restore h w reader)))
                                (take i (zip us infos)))
                           (us ! i) (exprs ! i))"
    by simp
  assume "fst (onDocumentRestored h (snd (Restore h w reader))) = Inr ()"
  from cl(2) [OF this]
  show "snd (onDocumentRestored h (snd (Restore h w reader)))
              = signallerLeave (installed parent (signallerEnter (snd (Restore h w reader)))
                                  (zip us infos))" .
qed

theorem Restore_stages_then_drains_witness:
  "nat (countAttr reader2) \<le> length (elements reader2) \<and>
   distinct [''A'', ''B''] \<and>
   Restore restoreHost emptyWorld reader2
     = (Inr (), emptyWorld\<lparr>restoredExpressions :=
          [(''A'', \<lparr>expression = exprX, comment = ''note''\<rparr>),
           (''B'', \<lparr>expression = exprB22, comment = []\<rparr>)]\<rparr>) \<and>
   length (restoredExpressions (snd (Restore restoreHost emptyWorld reader2))) = 2 \<and>
   expressions (snd (Restore restoreHost emptyWorld reader2)) = [] \<and>
   fst (onDocumentRestored restoreHost (snd (Restore restoreHost emptyWorld reader2))) = Inr () \<and>
   expressions (snd (onDocumentRestored restoreHost (snd (Restore restoreHost emptyWorld reader2))))
     = [(''A'', \<lparr>expression = exprX, comment = ''note''\<rparr>),
        (''B'', \<lparr>expression = exprB22, comment = []\<rparr>)] \<and>
   backLinks (snd (onDocumentRestored restoreHost (snd (Restore restoreHost emptyWorld reader2))))
     = [(2, 1)] \<and>
   signals (snd (onDocumentRestored restoreHost (snd (Restore restoreHost emptyWorld reader2))))
     = [AboutToSetValue, ExpressionChanged ''A'', ExpressionChanged ''B'', HasSetValue]"
proof -
  let ?infos = "[\<lparr>expression = exprX, comment = ''note''\<rparr>,
                 \<lparr>expression = exprB22, comment = []\<rparr>]"
  let ?Wr = "snd (Restore restoreHost emptyWorld reader2)"
  have cnt: "nat (countAttr reader2) \<le> length (elements reader2)"
    by (simp add: reader2_def)
  have tk: "take (nat (countAttr reader2)) (elements reader2) = elements reader2"
    by (simp add: reader2_def)
  have pp: "map (\<lambda>el. parseObjectIdentifier restoreHost
                        (freecad_dynamic_cast (getContainer restoreHost)) (pathAttr el))
                (take (nat (countAttr reader2)) (elements reader2)) = map Inr [''A'', ''B'']"
    unfolding tk by (simp add: reader2_def restoreHost_def plainHost_def)
  have pe: "map (\<lambda>el. parseExpression restoreHost
                        (freecad_dynamic_cast (getContainer restoreHost)) (expressionAttr el))
                (take (nat (countAttr reader2)) (elements reader2)) = map Inr [exprX, exprB22]"
    unfolding tk by (simp add: reader2_def restoreHost_def plainHost_def exprB22_def)
  have inf: "?infos = map2 mkExpressionInfo [exprX, exprB22]
               (map commentAttr (take (nat (countAttr reader2)) (elements reader2)))"
    unfolding tk by (simp add: reader2_def mkExpressionInfo_def)
  have d: "distinct [''A'', ''B'']"
    by simp
  have dj: "set [''A'', ''B''] \<inter> fst ` set (expressions emptyWorld) = {}"
    by (simp add: emptyWorld_def)
  note t = Restore_stages_then_drains [of restoreHost emptyWorld reader2 "[''A'', ''B'']"
             "[exprX, exprB22]" ?infos 1 "[''A'', ''B'']"]
  from t cnt pp pe inf d
  have R: "Restore restoreHost emptyWorld reader2
             = (Inr (), emptyWorld\<lparr>restoredExpressions := zip [''A'', ''B''] ?infos\<rparr>)"
    and l: "length (restoredExpressions ?Wr) = nat (countAttr reader2)"
    and e: "expressions ?Wr = expressions emptyWorld"
    by blast+
  from t cnt pp pe inf d container_restoreHost canonical_restoreHost dj
  have iff: "(fst (onDocumentRestored restoreHost ?Wr) = Inr ()) =
           (\<forall>i<length [''A'', ''B''].
               installable restoreHost (installed 1 (signallerEnter ?Wr)
                                (take i (zip [''A'', ''B''] ?infos)))
                           ([''A'', ''B''] ! i) ([exprX, exprB22] ! i))"
    and fin: "fst (onDocumentRestored restoreHost ?Wr) = Inr () \<longrightarrow>
            snd (onDocumentRestored restoreHost ?Wr)
              = signallerLeave (installed 1 (signallerEnter ?Wr) (zip [''A'', ''B''] ?infos))"
    by blast+
  have Wr: "?Wr = emptyWorld\<lparr>restoredExpressions := zip [''A'', ''B''] ?infos\<rparr>"
    by (simp add: R)
  have ok: "fst (onDocumentRestored restoreHost ?Wr) = Inr ()"
    unfolding iff unfolding Wr
    using installable_A [of "zip [''A'', ''B''] ?infos"]
          installable_B [of "zip [''A'', ''B''] ?infos"]
    by (simp add: All_less_Suc)
  from fin ok have w': "snd (onDocumentRestored restoreHost ?Wr)
              = signallerLeave (installed 1 (signallerEnter ?Wr) (zip [''A'', ''B''] ?infos))"
    by simp
  have x1: "expressions (snd (onDocumentRestored restoreHost ?Wr))
     = [(''A'', \<lparr>expression = exprX, comment = ''note''\<rparr>),
        (''B'', \<lparr>expression = exprB22, comment = []\<rparr>)]"
    unfolding w' unfolding Wr
    by (simp add: installed_def signallerEnter_def signallerLeave_def emptyWorld_def)
  have x2: "backLinks (snd (onDocumentRestored restoreHost ?Wr)) = [(2, 1)]"
    unfolding w' unfolding Wr
    by (simp add: installed_def signallerEnter_def signallerLeave_def emptyWorld_def
        backLinksOf_def exprX_def exprB22_def)
  have x3: "signals (snd (onDocumentRestored restoreHost ?Wr))
     = [AboutToSetValue, ExpressionChanged ''A'', ExpressionChanged ''B'', HasSetValue]"
    unfolding w' unfolding Wr
    by (simp add: installed_def signallerEnter_def signallerLeave_def emptyWorld_def)
  have l2: "length (restoredExpressions ?Wr) = 2"
    using l by (simp add: reader2_def)
  have e2: "expressions ?Wr = []"
    using e by (simp add: emptyWorld_def)
  have R2: "Restore restoreHost emptyWorld reader2
     = (Inr (), emptyWorld\<lparr>restoredExpressions :=
          [(''A'', \<lparr>expression = exprX, comment = ''note''\<rparr>),
           (''B'', \<lparr>expression = exprB22, comment = []\<rparr>)]\<rparr>)"
    using R by simp
  show ?thesis
    using cnt d R2 l2 e2 ok x1 x2 x3 by blast
qed

section \<open>Renaming paths\<close>

lemma rehouse_single:
  "rehouse [(a, b)] exprs = fold (\<lambda>i. AList.update (renameKey a b (fst i)) (snd i)) exprs []"
  unfolding rehouse_def by (rule fold_cong) (auto simp: renameKey_def)

lemma fold_update_renamed:
  "distinct (map fst xs) \<Longrightarrow> inj_on f (fst ` set xs) \<Longrightarrow>
   (\<forall>k. k \<in> fst ` set xs \<longrightarrow>
      map_of (fold (\<lambda>i. AList.update (f (fst i)) (snd i)) xs acc) (f k) = map_of xs k) \<and>
   (\<forall>k'. k' \<notin> f ` fst ` set xs \<longrightarrow>
      map_of (fold (\<lambda>i. AList.update (f (fst i)) (snd i)) xs acc) k' = map_of acc k')"
proof (induction xs arbitrary: acc)
  case Nil
  then show ?case by simp
next
  case (Cons x xs)
  obtain k0 v0 where x: "x = (k0, v0)" by (cases x)
  from Cons.prems have d: "distinct (map fst xs)" and k0: "k0 \<notin> fst ` set xs"
    and inj: "inj_on f (fst ` set xs)" and fk0: "f k0 \<notin> f ` fst ` set xs"
    by (auto simp: x inj_on_def)
  from Cons.IH [OF d inj, of "AList.update (f k0) v0 acc"]
  have IH1: "\<And>k. k \<in> fst ` set xs \<Longrightarrow>
      map_of (fold (\<lambda>i. AList.update (f (fst i)) (snd i)) xs (AList.update (f k0) v0 acc)) (f k) = map_of xs k"
    and IH2: "\<And>k'. k' \<notin> f ` fst ` set xs \<Longrightarrow>
      map_of (fold (\<lambda>i. AList.update (f (fst i)) (snd i)) xs (AList.update (f k0) v0 acc)) k'
        = map_of (AList.update (f k0) v0 acc) k'"
    by blast+
  have fold_x: "fold (\<lambda>i. AList.update (f (fst i)) (snd i)) (x # xs) acc
      = fold (\<lambda>i. AList.update (f (fst i)) (snd i)) xs (AList.update (f k0) v0 acc)"
    by (simp add: x)
  show ?case
  proof (intro conjI allI impI)
    fix k assume "k \<in> fst ` set (x # xs)"
    then consider "k = k0" | "k \<in> fst ` set xs" "k \<noteq> k0" using k0 by (auto simp: x)
    then show "map_of (fold (\<lambda>i. AList.update (f (fst i)) (snd i)) (x # xs) acc) (f k) = map_of (x # xs) k"
    proof cases
      case 1
      with IH2 [OF fk0] show ?thesis unfolding fold_x by (simp add: x update_conv')
    next
      case 2
      with IH1 [of k] show ?thesis unfolding fold_x by (simp add: x)
    qed
  next
    fix k' assume "k' \<notin> f ` fst ` set (x # xs)"
    then have "k' \<noteq> f k0" "k' \<notin> f ` fst ` set xs" by (auto simp: x)
    with IH2 [of k'] show "map_of (fold (\<lambda>i. AList.update (f (fst i)) (snd i)) (x # xs) acc) k' = map_of acc k'"
      unfolding fold_x by (simp add: update_conv')
  qed
qed

lemma fold_update_distinct:
  "distinct (map fst acc) \<Longrightarrow> distinct (map fst (fold (\<lambda>i. AList.update (f (fst i)) (snd i)) xs acc))"
  by (induction xs arbitrary: acc) (simp_all add: distinct_update)

lemma fold_update_keys:
  "fst ` set (fold (\<lambda>i. AList.update (f (fst i)) (snd i)) xs acc) = f ` fst ` set xs \<union> fst ` set acc"
  by (induction xs arbitrary: acc) (auto simp: dom_update)

lemma rehouse_single_lookup:
  assumes d: "distinct (map fst exprs)" and nb: "b \<notin> fst ` set exprs"
  shows "map_of (rehouse [(a, b)] exprs) k =
           (if k = b then map_of exprs a else if k = a then None else map_of exprs k)"
proof -
  let ?f = "renameKey a b"
  have inj: "inj_on ?f (fst ` set exprs)"
    using nb by (auto simp: inj_on_def renameKey_def split: if_splits)
  from fold_update_renamed [OF d inj, of "[]"]
  have F1: "\<And>k. k \<in> fst ` set exprs \<Longrightarrow> map_of (rehouse [(a, b)] exprs) (?f k) = map_of exprs k"
    and F2: "\<And>k'. k' \<notin> ?f ` fst ` set exprs \<Longrightarrow> map_of (rehouse [(a, b)] exprs) k' = None"
    unfolding rehouse_single by auto
  have none: "\<And>k. k \<notin> fst ` set exprs \<Longrightarrow> map_of exprs k = None"
    by (simp add: map_of_eq_None_iff)
  show ?thesis
  proof (cases "k \<in> ?f ` fst ` set exprs")
    case True
    then obtain k0 where k0: "k0 \<in> fst ` set exprs" "k = ?f k0" by auto
    with F1 [of k0] have "map_of (rehouse [(a, b)] exprs) k = map_of exprs k0"
      by simp
    with k0 nb none show ?thesis by (auto simp: renameKey_def split: if_splits)
  next
    case False
    with F2 [of k] have "map_of (rehouse [(a, b)] exprs) k = None"
      by simp
    moreover have "k = b \<Longrightarrow> a \<notin> fst ` set exprs"
      using False by (auto simp: renameKey_def image_iff)
    moreover have "k \<noteq> b \<Longrightarrow> k \<noteq> a \<Longrightarrow> k \<notin> fst ` set exprs"
      using False by (force simp: renameKey_def image_iff)
    ultimately show ?thesis using none by auto
  qed
qed

lemma rehouse_distinct: "distinct (map fst (rehouse [(a, b)] exprs))"
  by (simp add: rehouse_single fold_update_distinct)

lemma expressions_fold_expressionChanged:
  "expressions (fold expressionChanged ps w) = expressions w"
  by (induction ps arbitrary: w) (simp_all add: expressionChanged_def)

lemma renameExpressions_single:
  "canonicalPath h a = Inr a \<Longrightarrow>
   \<exists>w1. renameExpressions h w [(a, b)] = (Inr (), w1) \<and>
         expressions w1 = rehouse [(a, b)] (expressions w)"
  by (simp add: renameExpressions_def Let_def expressions_fold_expressionChanged)

text \<open>
  C6. For a store (with its keys distinct, as in any map) and canonical paths \<open>a\<close>, \<open>b\<close>
  with \<open>b\<close> not a key, renaming \<open>a\<close> to \<open>b\<close> and then \<open>b\<close> to \<open>a\<close> succeeds twice and gives
  a store with the original keys, each bound to the expression and comment it had.
\<close>

theorem renameExpressions_round_trip:
  assumes ca: "canonicalPath h a = Inr a" and cb: "canonicalPath h b = Inr b"
    and d: "distinct (map fst (expressions w))" and nb: "b \<notin> fst ` set (expressions w)"
  shows "\<exists>w1 w2. renameExpressions h w [(a, b)] = (Inr (), w1) \<and>
                 renameExpressions h w1 [(b, a)] = (Inr (), w2) \<and>
                 map_of (expressions w2) = map_of (expressions w) \<and>
                 fst ` set (expressions w2) = fst ` set (expressions w)"
proof -
  from renameExpressions_single [OF ca] obtain w1 where
    r1: "renameExpressions h w [(a, b)] = (Inr (), w1)"
    and e1: "expressions w1 = rehouse [(a, b)] (expressions w)" by blast
  from renameExpressions_single [OF cb] obtain w2 where
    r2: "renameExpressions h w1 [(b, a)] = (Inr (), w2)"
    and e2: "expressions w2 = rehouse [(b, a)] (expressions w1)" by blast
  have none: "\<And>k. k \<notin> fst ` set (expressions w) \<Longrightarrow> map_of (expressions w) k = None"
    by (simp add: map_of_eq_None_iff)
  have l1: "\<And>k. map_of (expressions w1) k =
              (if k = b then map_of (expressions w) a else if k = a then None else map_of (expressions w) k)"
    by (simp add: e1 rehouse_single_lookup [OF d nb])
  have d1: "distinct (map fst (expressions w1))" by (simp add: e1 rehouse_distinct)
  have na: "a \<notin> fst ` set (expressions w1)"
  proof (cases "a = b")
    case True
    with l1 [of a] nb none [of b] show ?thesis
      by (simp add: map_of_eq_None_iff [symmetric])
  next
    case False
    with l1 [of a] show ?thesis
      by (simp add: map_of_eq_None_iff [symmetric])
  qed
  have l2: "\<And>k. map_of (expressions w2) k =
              (if k = a then map_of (expressions w1) b else if k = b then None
               else map_of (expressions w1) k)"
    by (simp add: e2 rehouse_single_lookup [OF d1 na])
  have eq: "map_of (expressions w2) = map_of (expressions w)"
  proof
    fix k
    show "map_of (expressions w2) k = map_of (expressions w) k"
      using l1 [of k] l1 [of b] l2 [of k] none [of b] nb by (auto split: if_splits)
  qed
  have "dom (map_of (expressions w2)) = dom (map_of (expressions w))" using eq by simp
  then have "fst ` set (expressions w2) = fst ` set (expressions w)"
    by (simp add: dom_map_of_conv_image_fst)
  with r1 r2 eq show ?thesis by blast
qed

theorem renameExpressions_round_trip_witness:
  "canonicalPath plainHost ''A'' = Inr ''A'' \<and> canonicalPath plainHost ''C'' = Inr ''C'' \<and>
   distinct (map fst (expressions chainWorld)) \<and> ''C'' \<notin> fst ` set (expressions chainWorld) \<and>
   map fst (expressions (snd (renameExpressions plainHost chainWorld [(''A'', ''C'')])))
     = [''C'', ''B''] \<and>
   map_of (expressions (snd (renameExpressions plainHost
             (snd (renameExpressions plainHost chainWorld [(''A'', ''C'')])) [(''C'', ''A'')])))
     = map_of (expressions chainWorld)"
proof -
  have ca: "canonicalPath plainHost ''A'' = Inr ''A''"
    by (rule canonicalPath_plain_A)
  have cb: "canonicalPath plainHost ''C'' = Inr ''C''"
    by (simp add: canonicalPath_def plainHost_def ownerProp_def)
  have d: "distinct (map fst (expressions chainWorld))"
    by (simp add: chainWorld_def emptyWorld_def)
  have nb: "''C'' \<notin> fst ` set (expressions chainWorld)"
    by (simp add: chainWorld_def emptyWorld_def)
  have k: "map fst (expressions (snd (renameExpressions plainHost chainWorld [(''A'', ''C'')])))
     = [''C'', ''B'']"
    by (simp add: renameExpressions_def ca rehouse_def chainWorld_def emptyWorld_def Let_def
        expressions_fold_expressionChanged)
  from renameExpressions_round_trip [OF ca cb d nb] obtain w1 w2 where
    "renameExpressions plainHost chainWorld [(''A'', ''C'')] = (Inr (), w1)"
    "renameExpressions plainHost w1 [(''C'', ''A'')] = (Inr (), w2)"
    "map_of (expressions w2) = map_of (expressions chainWorld)" by blast
  then have "map_of (expressions (snd (renameExpressions plainHost
             (snd (renameExpressions plainHost chainWorld [(''A'', ''C'')])) [(''C'', ''A'')])))
     = map_of (expressions chainWorld)" by simp
  with ca cb d nb k show ?thesis by blast
qed

end
